theory Spec2Isabelle
  imports Main "HOL-Library.Word"
begin

section \<open>JavaScript strings\<close>

text \<open>
  A JavaScript string is a sequence of 16-bit code units. All the string operations
  used by \<^verbatim>\<open>src/utils/pmap-parser.ts\<close> work on code units (no regular expression
  there carries the \<^verbatim>\<open>u\<close> flag).
\<close>

type_synonym cu = "16 word"
type_synonym jsstring = "cu list"

text \<open>An ASCII literal of the source, as a sequence of code units.\<close>

definition lit :: "string \<Rightarrow> jsstring" where
  "lit s = map (\<lambda>c. of_char c) s"

text \<open>
  The code units of ECMAScript's \<^verbatim>\<open>LineTerminator\<close> and of \<^verbatim>\<open>WhiteSpace\<close> together with
  \<^verbatim>\<open>LineTerminator\<close>: the latter set is what \<^verbatim>\<open>String.prototype.trim\<close> strips and what
  \<^verbatim>\<open>\s\<close> matches; \<^verbatim>\<open>.\<close> matches every code unit that is not a line terminator.
\<close>

definition isLineTerminator :: "cu \<Rightarrow> bool" where
  "isLineTerminator c \<longleftrightarrow> c = 0x000A \<or> c = 0x000D \<or> c = 0x2028 \<or> c = 0x2029"

definition isWhiteSpace :: "cu \<Rightarrow> bool" where
  "isWhiteSpace c \<longleftrightarrow>
     c = 0x0009 \<or> c = 0x000B \<or> c = 0x000C \<or> c = 0x0020 \<or> c = 0x00A0 \<or> c = 0x1680
     \<or> (0x2000 \<le> c \<and> c \<le> 0x200A) \<or> c = 0x202F \<or> c = 0x205F \<or> c = 0x3000 \<or> c = 0xFEFF
     \<or> isLineTerminator c"

definition trim :: "jsstring \<Rightarrow> jsstring" where
  "trim s = rev (dropWhile isWhiteSpace (rev (dropWhile isWhiteSpace s)))"

definition startsWith :: "jsstring \<Rightarrow> jsstring \<Rightarrow> bool" where
  "startsWith s p \<longleftrightarrow> take (length p) s = p"

text \<open>\<^verbatim>\<open>s.substring(n)\<close> with one argument: the code units from index \<open>n\<close> on.\<close>

definition substring :: "jsstring \<Rightarrow> nat \<Rightarrow> jsstring" where
  "substring s n = drop n s"

text \<open>
  \<^verbatim>\<open>s.split(sep)\<close> for a separator of one code unit: the pieces between the
  occurrences of the separator, so always at least one piece. The first case of the
  inner \<open>case\<close> is never taken.
\<close>

fun splitStr :: "jsstring \<Rightarrow> cu \<Rightarrow> jsstring list" where
  "splitStr [] sep = [[]]"
| "splitStr (c # cs) sep =
     (if c = sep then [] # splitStr cs sep
      else (case splitStr cs sep of [] \<Rightarrow> [[c]] | l # ls \<Rightarrow> (c # l) # ls))"

section \<open>Regular expressions\<close>

text \<open>
  The fragment of ECMAScript regular expressions that the source uses: literal text,
  a greedy \<^verbatim>\<open>*\<close> or \<^verbatim>\<open>+\<close> over a character class, a capturing group, an optional
  non-capturing group \<^verbatim>\<open>(?:...)?\<close>, concatenation and the anchor \<^verbatim>\<open>^\<close>.
\<close>

datatype rx =
    Lit jsstring
  | Star "cu \<Rightarrow> bool"
  | Plus "cu \<Rightarrow> bool"
  | Grp nat rx
  | Opt rx
  | Seq rx rx
  | Bol

type_synonym captures = "nat \<rightharpoonup> jsstring"

text \<open>
  Backtracking in the order of the ECMAScript matcher, in continuation-passing style:
  the continuation \<open>k\<close> is the rest of the pattern, and a greedy quantifier tries the
  longest repetition first and gives code units back one at a time while \<open>k\<close> fails.
\<close>

fun greedyStar :: "(cu \<Rightarrow> bool) \<Rightarrow> jsstring \<Rightarrow> (jsstring \<Rightarrow> 'r option) \<Rightarrow> 'r option" where
  "greedyStar p [] k = k []"
| "greedyStar p (c # cs) k =
     (if p c then (case greedyStar p cs k of Some r \<Rightarrow> Some r | None \<Rightarrow> k (c # cs))
      else k (c # cs))"

definition greedyPlus :: "(cu \<Rightarrow> bool) \<Rightarrow> jsstring \<Rightarrow> (jsstring \<Rightarrow> 'r option) \<Rightarrow> 'r option" where
  "greedyPlus p s k = (case s of [] \<Rightarrow> None | c # cs \<Rightarrow> if p c then greedyStar p cs k else None)"

text \<open>
  \<open>rmatch r inp s c k\<close> matches \<open>r\<close> at the suffix \<open>s\<close> of the input \<open>inp\<close>, with the
  captures \<open>c\<close> made so far, and hands the remaining suffix and the captures to \<open>k\<close>.
\<close>

primrec rmatch :: "rx \<Rightarrow> jsstring \<Rightarrow> jsstring \<Rightarrow> captures
    \<Rightarrow> (jsstring \<Rightarrow> captures \<Rightarrow> 'r option) \<Rightarrow> 'r option" where
  "rmatch (Lit l) inp s c k = (if take (length l) s = l then k (drop (length l) s) c else None)"
| "rmatch (Star p) inp s c k = greedyStar p s (\<lambda>s'. k s' c)"
| "rmatch (Plus p) inp s c k = greedyPlus p s (\<lambda>s'. k s' c)"
| "rmatch (Grp g r) inp s c k =
     rmatch r inp s c (\<lambda>s' c'. k s' (c'(g \<mapsto> take (length s - length s') s)))"
| "rmatch (Opt r) inp s c k =
     (case rmatch r inp s c k of Some x \<Rightarrow> Some x | None \<Rightarrow> k s c)"
| "rmatch (Seq a b) inp s c k = rmatch a inp s c (\<lambda>s' c'. rmatch b inp s' c' k)"
| "rmatch Bol inp s c k = (if length s = length inp then k s c else None)"

text \<open>
  The first match at or after the suffix \<open>s\<close>: the suffix where the match starts, the
  suffix after the match, and the captures.
\<close>

fun search :: "rx \<Rightarrow> jsstring \<Rightarrow> jsstring \<Rightarrow> (jsstring \<times> jsstring \<times> captures) option" where
  "search r inp [] =
     (case rmatch r inp [] Map.empty (\<lambda>s' c. Some (s', c)) of
        Some (s', c) \<Rightarrow> Some ([], s', c)
      | None \<Rightarrow> None)"
| "search r inp (x # xs) =
     (case rmatch r inp (x # xs) Map.empty (\<lambda>s' c. Some (s', c)) of
        Some (s', c) \<Rightarrow> Some (x # xs, s', c)
      | None \<Rightarrow> search r inp xs)"

text \<open>
  \<^verbatim>\<open>str.match(re)\<close> for a regular expression without the \<^verbatim>\<open>g\<close> flag: \<^verbatim>\<open>null\<close>, or the
  match array, whose element 0 is the matched text and whose element \<open>g\<close> is the text
  of group \<open>g\<close>, undefined when the group took no part in the match.
\<close>

definition strMatch :: "jsstring \<Rightarrow> rx \<Rightarrow> (nat \<rightharpoonup> jsstring) option" where
  "strMatch str r =
     (case search r str str of
        None \<Rightarrow> None
      | Some (s, s', c) \<Rightarrow> Some (c(0 \<mapsto> take (length s - length s') s)))"

text \<open>A replacement string: literal text and group references \<^verbatim>\<open>$n\<close>.\<close>

datatype tok = TLit jsstring | TGrp nat

fun expand :: "tok list \<Rightarrow> captures \<Rightarrow> jsstring" where
  "expand [] c = []"
| "expand (TLit l # ts) c = l @ expand ts c"
| "expand (TGrp g # ts) c = (case c g of None \<Rightarrow> [] | Some x \<Rightarrow> x) @ expand ts c"

text \<open>
  \<^verbatim>\<open>str.replace(re, template)\<close> for a regular expression with the \<^verbatim>\<open>g\<close> flag, from the
  suffix \<open>s\<close> on: the text before each match is kept, the match is replaced, and the
  scan goes on after the match (one code unit further after an empty match).
\<close>

function replaceFrom :: "rx \<Rightarrow> tok list \<Rightarrow> jsstring \<Rightarrow> jsstring \<Rightarrow> jsstring" where
  "replaceFrom r t inp s =
     (case search r inp s of
        None \<Rightarrow> s
      | Some (s1, s2, c) \<Rightarrow>
          take (length s - length s1) s @ expand t c @
          (if length s2 < length s1 then replaceFrom r t inp s2
           else (case s1 of [] \<Rightarrow> [] | x # xs \<Rightarrow> x # replaceFrom r t inp xs)))"
  by pat_completeness auto
termination
proof (relation "measure (\<lambda>(r, t, inp, s). length s)")
  show "wf (measure (\<lambda>(r, t, inp, s). length s))"
    by simp
next
  fix r :: rx and t :: "tok list" and inp s :: jsstring and x2 s1 y s2 c
  assume a: "search r inp s = Some x2" "(s1, y) = x2" "(s2, c) = y" "length s2 < length s1"
  have "search r inp s = Some (s1, s2, c) \<Longrightarrow> length s1 \<le> length s"
    by (induction s) (auto split: option.splits)
  with a show "((r, t, inp, s2), (r, t, inp, s)) \<in> measure (\<lambda>(r, t, inp, s). length s)"
    by auto
next
  fix r :: rx and t :: "tok list" and inp s :: jsstring and x2 s1 y s2 c x xs
  assume a: "search r inp s = Some x2" "(s1, y) = x2" "(s2, c) = y" "s1 = x # xs"
  have "search r inp s = Some (s1, s2, c) \<Longrightarrow> length s1 \<le> length s"
    by (induction s) (auto split: option.splits)
  with a show "((r, t, inp, xs), (r, t, inp, s)) \<in> measure (\<lambda>(r, t, inp, s). length s)"
    by auto
qed

declare replaceFrom.simps [simp del]

definition strReplaceAll :: "jsstring \<Rightarrow> rx \<Rightarrow> tok list \<Rightarrow> jsstring" where
  "strReplaceAll str r t = replaceFrom r t str str"

section \<open>The block parser\<close>

text \<open>The interfaces \<^verbatim>\<open>PmapSection\<close> and \<^verbatim>\<open>PmapData\<close>; a field marked \<^verbatim>\<open>?\<close> is optional.\<close>

datatype sectionType = SText | SHeading | SList | SImage | SLink

record PmapSection =
  type :: sectionType
  content :: jsstring
  level :: "nat option"
  items :: "jsstring list option"
  url :: "jsstring option"
  alt :: "jsstring option"

record PmapData =
  title :: "jsstring option"
  description :: "jsstring option"
  sections :: "PmapSection list"

text \<open>The object literals that \<^verbatim>\<open>parsePmap\<close> pushes.\<close>

definition listSection :: "jsstring list \<Rightarrow> PmapSection" where
  "listSection xs =
     \<lparr>type = SList, content = [], level = None, items = Some xs, url = None, alt = None\<rparr>"

definition headingSection :: "jsstring \<Rightarrow> nat \<Rightarrow> PmapSection" where
  "headingSection txt n =
     \<lparr>type = SHeading, content = txt, level = Some n, items = None, url = None, alt = None\<rparr>"

definition imageSection :: "jsstring \<Rightarrow> jsstring \<Rightarrow> PmapSection" where
  "imageSection u a =
     \<lparr>type = SImage, content = [], level = None, items = None, url = Some u, alt = Some a\<rparr>"

definition textSection :: "jsstring \<Rightarrow> PmapSection" where
  "textSection txt =
     \<lparr>type = SText, content = txt, level = None, items = None, url = None, alt = None\<rparr>"

text \<open>
  The variables of \<^verbatim>\<open>parsePmap\<close> that the loop changes: \<^verbatim>\<open>result\<close>, \<^verbatim>\<open>currentList\<close>
  (\<^verbatim>\<open>null\<close> is \<open>None\<close>; an array, also an empty one, is truthy) and \<^verbatim>\<open>inMetadata\<close>.
\<close>

record pstate =
  result :: PmapData
  currentList :: "jsstring list option"
  inMetadata :: bool

definition initState :: pstate where
  "initState =
     \<lparr>result = \<lparr>title = None, description = None, sections = []\<rparr>,
      currentList = None, inMetadata = False\<rparr>"

text \<open>\<^verbatim>\<open>result.sections.push(sec)\<close>\<close>

definition pushSection :: "PmapSection \<Rightarrow> pstate \<Rightarrow> pstate" where
  "pushSection sec st = st\<lparr>result := (result st)\<lparr>sections := sections (result st) @ [sec]\<rparr>\<rparr>"

text \<open>
  The block \<^verbatim>\<open>if (currentList) { result.sections.push({type: 'list', ...}); currentList = null; }\<close>,
  which the source repeats before each construct that ends a list.
\<close>

definition endList :: "pstate \<Rightarrow> pstate" where
  "endList st =
     (case currentList st of
        None \<Rightarrow> st
      | Some xs \<Rightarrow> (pushSection (listSection xs) st)\<lparr>currentList := None\<rparr>)"

text \<open>
  The regular expressions \<^verbatim>\<open>/^#+/\<close> and \<^verbatim>\<open>/\[image:\s*([^\|]+)\s*(?:\|\s*(.+))?\]/\<close>.
  The code unit \<open>0x23\<close> is \<^verbatim>\<open>#\<close> and \<open>0x7C\<close> is \<^verbatim>\<open>|\<close>.
\<close>

definition headingRx :: rx where
  "headingRx = Seq Bol (Plus (\<lambda>c. c = 0x23))"

definition imageRx :: rx where
  "imageRx =
     Seq (Lit (lit ''[image:''))
    (Seq (Star isWhiteSpace)
    (Seq (Grp 1 (Plus (\<lambda>c. c \<noteq> 0x7C)))
    (Seq (Star isWhiteSpace)
    (Seq (Opt (Seq (Lit (lit ''|''))
              (Seq (Star isWhiteSpace)
                   (Grp 2 (Plus (\<lambda>c. \<not> isLineTerminator c))))))
         (Lit (lit '']''))))))"

text \<open>
  What can go wrong at run time in \<^verbatim>\<open>parsePmap\<close>: calling \<^verbatim>\<open>.trim()\<close> on \<^verbatim>\<open>match[1]\<close>
  when that element is undefined.
\<close>

datatype error = TypeError

text \<open>
  The body of the \<^verbatim>\<open>for\<close> loop for the line \<open>line\<close> at index \<open>i\<close>; each \<^verbatim>\<open>continue\<close> of
  the source ends a branch here.
\<close>

definition step :: "nat \<Rightarrow> jsstring \<Rightarrow> pstate \<Rightarrow> error + pstate" where
  "step i line st =
     (let trimmed = trim line in
      if trimmed = [] then Inr (endList st)
      else if trimmed = lit ''---'' \<and> i = 0 then Inr (st\<lparr>inMetadata := True\<rparr>)
      else if trimmed = lit ''---'' \<and> inMetadata st then Inr (st\<lparr>inMetadata := False\<rparr>)
      else if inMetadata st then
        (if startsWith trimmed (lit ''title:'') then
           Inr (st\<lparr>result := (result st)\<lparr>title := Some (trim (substring trimmed 6))\<rparr>\<rparr>)
         else if startsWith trimmed (lit ''description:'') then
           Inr (st\<lparr>result := (result st)\<lparr>description := Some (trim (substring trimmed 12))\<rparr>\<rparr>)
         else Inr st)
      else if startsWith trimmed (lit ''#'') then
        (let st1 = endList st;
             n = (case strMatch trimmed headingRx of
                    None \<Rightarrow> 1
                  | Some m \<Rightarrow> (case m 0 of None \<Rightarrow> 1 | Some m0 \<Rightarrow> if length m0 = 0 then 1 else length m0));
             txt = trim (substring trimmed n)
         in Inr (pushSection (headingSection txt n) st1))
      else if startsWith trimmed (lit ''[image:'') then
        (let st1 = endList st in
         case strMatch trimmed imageRx of
           None \<Rightarrow> Inr st1
         | Some m \<Rightarrow>
             (case m 1 of
                None \<Rightarrow> Inl TypeError
              | Some m1 \<Rightarrow>
                  Inr (pushSection
                    (imageSection (trim m1)
                       (case m 2 of None \<Rightarrow> [] | Some m2 \<Rightarrow> if trim m2 = [] then [] else trim m2))
                    st1)))
      else if startsWith trimmed (lit ''-'') then
        (let item = trim (substring trimmed 1) in
         Inr (st\<lparr>currentList := Some ((case currentList st of None \<Rightarrow> [] | Some xs \<Rightarrow> xs) @ [item])\<rparr>))
      else Inr (pushSection (textSection trimmed) (endList st)))"

text \<open>The loop \<^verbatim>\<open>for (let i = 0; i < lines.length; i++)\<close>, from index \<open>i\<close> on.\<close>

function loop :: "jsstring list \<Rightarrow> nat \<Rightarrow> pstate \<Rightarrow> error + pstate" where
  "loop lines i st =
     (if i < length lines then
        (case step i (lines ! i) st of
           Inl e \<Rightarrow> Inl e
         | Inr st' \<Rightarrow> loop lines (Suc i) st')
      else Inr st)"
  by pat_completeness auto
termination
  by (relation "measure (\<lambda>(lines, i, st). length lines - i)") auto

declare loop.simps [simp del]

text \<open>
  \<^verbatim>\<open>parsePmap\<close>: split at the line feeds, run the loop, push the list still pending
  and return \<^verbatim>\<open>result\<close>. (The source does not reset \<^verbatim>\<open>currentList\<close> after this last
  push; the variable is not read again.)
\<close>

definition parsePmap :: "jsstring \<Rightarrow> error + PmapData" where
  "parsePmap input =
     (let lines = splitStr input 0x0A in
      case loop lines 0 initState of
        Inl e \<Rightarrow> Inl e
      | Inr st \<Rightarrow> Inr (result (endList st)))"

section \<open>The inline transformer\<close>

text \<open>
  The regular expressions \<^verbatim>\<open>/\*\*([^\*]+)\*\*/g\<close> and \<^verbatim>\<open>/\[([^\]]+)\]\(([^\)]+)\)/g\<close>
  and their replacement strings. The code unit \<open>0x2A\<close> is \<^verbatim>\<open>*\<close>, \<open>0x5B\<close> is \<^verbatim>\<open>[\<close>,
  \<open>0x5D\<close> is \<^verbatim>\<open>]\<close> and \<open>0x29\<close> is \<^verbatim>\<open>)\<close>.
\<close>

definition boldRx :: rx where
  "boldRx = Seq (Lit (lit ''**'')) (Seq (Grp 1 (Plus (\<lambda>c. c \<noteq> 0x2A))) (Lit (lit ''**'')))"

definition boldTemplate :: "tok list" where
  "boldTemplate = [TLit (lit ''<strong>''), TGrp 1, TLit (lit ''</strong>'')]"

definition linkRx :: rx where
  "linkRx =
     Seq (Lit (lit ''[''))
    (Seq (Grp 1 (Plus (\<lambda>c. c \<noteq> 0x5D)))
    (Seq (Lit (lit ''](''))
    (Seq (Grp 2 (Plus (\<lambda>c. c \<noteq> 0x29)))
         (Lit (lit '')'')))))"

definition linkTemplate :: "tok list" where
  \<open>linkTemplate =
     [TLit (lit ''<a href="''), TGrp 2, TLit (lit ''" target="_blank">''), TGrp 1, TLit (lit ''</a>'')]\<close>

definition processInlineMarkup :: "jsstring \<Rightarrow> jsstring" where
  "processInlineMarkup txt =
     (let txt1 = strReplaceAll txt boldRx boldTemplate;
          txt2 = strReplaceAll txt1 linkRx linkTemplate
      in txt2)"

section \<open>Notions used in the statements and proofs\<close>

text \<open>
  None of the following is part of the program: these are the notions in which the
  properties below are stated and proved.
\<close>

text \<open>The capturing groups that take part in every match of a pattern.\<close>

primrec groups :: "rx \<Rightarrow> nat set" where
  "groups (Lit l) = {}"
| "groups (Star p) = {}"
| "groups (Plus p) = {}"
| "groups (Grp g r) = insert g (groups r)"
| "groups (Opt r) = {}"
| "groups (Seq a b) = groups a \<union> groups b"
| "groups Bol = {}"

text \<open>
  The loop as a recursion over the lines that remain, \<open>i\<close> being the index of the first
  of them; \<open>loop_scan\<close> below shows that it is the loop.
\<close>

fun scan :: "nat \<Rightarrow> jsstring list \<Rightarrow> pstate \<Rightarrow> error + pstate" where
  "scan i [] st = Inr st"
| "scan i (l # ls) st =
     (case step i l st of
        Inl e \<Rightarrow> Inl e
      | Inr st' \<Rightarrow> scan (Suc i) ls st')"

text \<open>
  The value that a metadata block gives to a key, in the words of the specification:
  the trimmed remainder of the last line of the block that starts with the key, if
  there is such a line.
\<close>

definition metaValue :: "jsstring \<Rightarrow> jsstring list \<Rightarrow> jsstring option" where
  "metaValue key ms =
     (case filter (\<lambda>m. startsWith (trim m) key) ms of
        [] \<Rightarrow> None
      | x # xs \<Rightarrow> Some (trim (substring (trim (last (x # xs))) (length key))))"

text \<open>
  A line that, outside a metadata block, reaches the last rule of the loop body: not
  blank, and its trimmed form starts with none of \<open>#\<close>, \<open>[image:\<close> and \<open>-\<close>.
\<close>

definition isParagraphLine :: "jsstring \<Rightarrow> bool" where
  "isParagraphLine l \<longleftrightarrow>
     trim l \<noteq> [] \<and> \<not> startsWith (trim l) (lit ''#'')
     \<and> \<not> startsWith (trim l) (lit ''[image:'') \<and> \<not> startsWith (trim l) (lit ''-'')"

text \<open>
  The spans of the inline syntax, in the words of the specification: a bold span is
  \<open>**\<close>, a non-empty content without \<open>*\<close>, \<open>**\<close>; a link span is \<open>[\<close>, a non-empty label
  without \<open>]\<close>, \<open>](\<close>, a non-empty target without \<open>)\<close>, \<open>)\<close>.
\<close>

definition hasBoldSpan :: "jsstring \<Rightarrow> bool" where
  "hasBoldSpan s \<longleftrightarrow>
     (\<exists>pre mid post. s = pre @ lit ''**'' @ mid @ lit ''**'' @ post \<and> mid \<noteq> [] \<and> 0x2A \<notin> set mid)"

definition hasLinkSpan :: "jsstring \<Rightarrow> bool" where
  "hasLinkSpan s \<longleftrightarrow>
     (\<exists>pre label target post.
        s = pre @ lit ''['' @ label @ lit '']('' @ target @ lit '')'' @ post
        \<and> label \<noteq> [] \<and> 0x5D \<notin> set label \<and> target \<noteq> [] \<and> 0x29 \<notin> set target)"

text \<open>Patterns without the anchor \<^verbatim>\<open>^\<close>: their matches do not depend on what comes before.\<close>

primrec unanchored :: "rx \<Rightarrow> bool" where
  "unanchored (Lit l) = True"
| "unanchored (Star p) = True"
| "unanchored (Plus p) = True"
| "unanchored (Grp g r) = unanchored r"
| "unanchored (Opt r) = unanchored r"
| "unanchored (Seq a b) = (unanchored a \<and> unanchored b)"
| "unanchored Bol = False"

text \<open>\<open>occursIn x s\<close>: the string \<open>x\<close> occurs in \<open>s\<close>.\<close>

fun occursIn :: "jsstring \<Rightarrow> jsstring \<Rightarrow> bool" where
  "occursIn x [] = (x = [])"
| "occursIn x (c # cs) = (take (length x) (c # cs) = x \<or> occursIn x cs)"

text \<open>
  What a group captures when the pattern is \<^verbatim>\<open>\s*\<close>, then the group, and the two together
  are to match the non-empty text \<open>u\<close> whose code units the group accepts: \<open>u\<close> without its
  leading white space, or the last code unit of \<open>u\<close> when \<open>u\<close> is white space only.
\<close>

definition captured :: "jsstring \<Rightarrow> jsstring" where
  "captured u =
     (if dropWhile isWhiteSpace u = [] then [last u] else dropWhile isWhiteSpace u)"

text \<open>The part of the image pattern after group 1.\<close>

abbreviation imageTail :: rx where
  "imageTail \<equiv>
     Seq (Star isWhiteSpace)
    (Seq (Opt (Seq (Lit (lit ''|''))
              (Seq (Star isWhiteSpace)
                   (Grp 2 (Plus (\<lambda>c. \<not> isLineTerminator c))))))
         (Lit (lit '']'')))"

text \<open>
  The count of consecutive leading \<open>#\<close> of a trimmed line, in the words of the
  specification.
\<close>

definition leadingHashes :: "jsstring \<Rightarrow> nat" where
  "leadingHashes t = length (takeWhile (\<lambda>c. c = 0x23) t)"

text \<open>
  The lines of a document that lie after its metadata block: all the lines when the
  first line does not trim to \<open>---\<close>; otherwise the lines after the next line that trims
  to \<open>---\<close>, none when there is no such line.
\<close>

definition afterFrontMatter :: "jsstring list \<Rightarrow> jsstring list" where
  "afterFrontMatter ls =
     (case ls of
        [] \<Rightarrow> []
      | l0 # rest \<Rightarrow>
          if trim l0 = lit ''---'' then drop 1 (dropWhile (\<lambda>l. trim l \<noteq> lit ''---'') rest)
          else ls)"

text \<open>
  The shape of an image line: somewhere in the text, \<open>[image:\<close>, a non-empty part
  without \<open>|\<close>, and then either \<open>]\<close>, or \<open>|\<close>, white space, a non-empty part without line
  terminators, and \<open>]\<close>.
\<close>

definition imageShape :: "jsstring \<Rightarrow> bool" where
  "imageShape t \<longleftrightarrow>
     (\<exists>p u r. t = p @ lit ''[image:'' @ u @ lit '']'' @ r \<and> u \<noteq> [] \<and> 0x7C \<notin> set u)
   \<or> (\<exists>p u w a r. t = p @ lit ''[image:'' @ u @ lit ''|'' @ w @ a @ lit '']'' @ r
         \<and> u \<noteq> [] \<and> 0x7C \<notin> set u \<and> (\<forall>z\<in>set w. isWhiteSpace z)
         \<and> a \<noteq> [] \<and> (\<forall>z\<in>set a. \<not> isLineTerminator z))"

text \<open>
  \<open>boldTagged s s'\<close>: \<open>s'\<close> is \<open>s\<close> with some of its \<open>**\<close> replaced by \<open><strong>\<close> or by
  \<open></strong>\<close>, which is all that the bold replace can do to a text.
\<close>

inductive boldTagged :: "jsstring \<Rightarrow> jsstring \<Rightarrow> bool" where
  tagged_Nil: "boldTagged [] []"
| tagged_Keep: "boldTagged s s' \<Longrightarrow> boldTagged (c # s) (c # s')"
| tagged_Open: "boldTagged s s' \<Longrightarrow> boldTagged (0x2A # 0x2A # s) (lit ''<strong>'' @ s')"
| tagged_Close: "boldTagged s s' \<Longrightarrow> boldTagged (0x2A # 0x2A # s) (lit ''</strong>'' @ s')"

code_pred boldTagged .

text \<open>
  A text that starts with a \<open>[\<close> whose label or target is still open at the end of the
  text: \<open>openLabel\<close> when no \<open>]\<close> follows the \<open>[\<close>, \<open>openTarget\<close> when the \<open>[\<close> is followed by a
  non-empty label, \<open>](\<close> and then no \<open>)\<close>. \<open>nowhere P s\<close>: no non-empty suffix of \<open>s\<close>
  satisfies \<open>P\<close>.
\<close>

definition openLabel :: "jsstring \<Rightarrow> bool" where
  "openLabel s = (case s of [] \<Rightarrow> False | c # x \<Rightarrow> c = 0x5B \<and> 0x5D \<notin> set x)"

definition openTarget :: "jsstring \<Rightarrow> bool" where
  "openTarget s =
     (case s of
        [] \<Rightarrow> False
      | c # x \<Rightarrow>
          c = 0x5B \<and> takeWhile (\<lambda>z. z \<noteq> 0x5D) x \<noteq> []
          \<and> take 2 (dropWhile (\<lambda>z. z \<noteq> 0x5D) x) = lit ''](''
          \<and> 0x29 \<notin> set (drop 2 (dropWhile (\<lambda>z. z \<noteq> 0x5D) x)))"

fun nowhere :: "(jsstring \<Rightarrow> bool) \<Rightarrow> jsstring \<Rightarrow> bool" where
  "nowhere P [] = True"
| "nowhere P (c # s) = (\<not> P (c # s) \<and> nowhere P s)"

section \<open>Properties\<close>

subsection \<open>Strings and the classification of a line\<close>

lemma lit_simps:
  "lit [] = []" "lit (c # cs) = of_char c # lit cs"
  by (simp_all add: lit_def)

lemma dropWhile_all_iff: "dropWhile p s = [] \<longleftrightarrow> (\<forall>c\<in>set s. p c)"
  by (induction s) auto

lemma trim_eq_Nil: "trim s = [] \<longleftrightarrow> (\<forall>c\<in>set s. isWhiteSpace c)"
proof
  assume "trim s = []"
  then have "dropWhile isWhiteSpace (rev (dropWhile isWhiteSpace s)) = []"
    by (simp add: trim_def)
  then have a: "\<forall>c\<in>set (dropWhile isWhiteSpace s). isWhiteSpace c"
    by (simp add: dropWhile_all_iff)
  have "dropWhile isWhiteSpace s = []"
  proof (cases "dropWhile isWhiteSpace s")
    case Nil then show ?thesis .
  next
    case (Cons x xs)
    then have "\<not> isWhiteSpace x" using hd_dropWhile [of isWhiteSpace s] by auto
    with a Cons show ?thesis by simp
  qed
  then show "\<forall>c\<in>set s. isWhiteSpace c" by (simp add: dropWhile_all_iff)
next
  assume "\<forall>c\<in>set s. isWhiteSpace c"
  then have d: "dropWhile isWhiteSpace s = []" by (simp add: dropWhile_all_iff)
  show "trim s = []" unfolding trim_def d by simp
qed

lemma step_blank: "trim l = [] \<Longrightarrow> step i l st = Inr (endList st)"
  by (simp add: step_def)

lemma lit_dashes_ne: "lit ''---'' \<noteq> []"
  by (simp add: lit_def)

lemma step_open: "trim l = lit ''---'' \<Longrightarrow> step 0 l st = Inr (st\<lparr>inMetadata := True\<rparr>)"
  by (simp add: step_def lit_dashes_ne)

lemma step_close:
  "trim l = lit ''---'' \<Longrightarrow> inMetadata st \<Longrightarrow> 0 < i \<Longrightarrow> step i l st = Inr (st\<lparr>inMetadata := False\<rparr>)"
  by (simp add: step_def lit_dashes_ne)

lemma step_meta:
  "inMetadata st \<Longrightarrow> trim l \<noteq> [] \<Longrightarrow> trim l \<noteq> lit ''---'' \<Longrightarrow>
   step i l st =
     Inr (if startsWith (trim l) (lit ''title:'') then
            st\<lparr>result := (result st)\<lparr>title := Some (trim (substring (trim l) 6))\<rparr>\<rparr>
          else if startsWith (trim l) (lit ''description:'') then
            st\<lparr>result := (result st)\<lparr>description := Some (trim (substring (trim l) 12))\<rparr>\<rparr>
          else st)"
  by (simp add: step_def)

lemma startsWith_ne: "startsWith t (lit (c # cs)) \<Longrightarrow> t \<noteq> []"
  by (auto simp: startsWith_def lit_def)

lemma startsWith_hash_not_dashes: "startsWith t (lit ''#'') \<Longrightarrow> t \<noteq> lit ''---''"
  by (auto simp: startsWith_def lit_def)

lemma startsWith_image_not_dashes: "startsWith t (lit ''[image:'') \<Longrightarrow> t \<noteq> lit ''---''"
  by (auto simp: startsWith_def lit_def)

lemma startsWith_image_not_hash: "startsWith t (lit ''[image:'') \<Longrightarrow> \<not> startsWith t (lit ''#'')"
  by (cases t) (auto simp: startsWith_def lit_def)

lemma startsWith_dash_not_hash: "startsWith t (lit ''-'') \<Longrightarrow> \<not> startsWith t (lit ''#'')"
  by (cases t) (auto simp: startsWith_def lit_def)

lemma startsWith_dash_not_image: "startsWith t (lit ''-'') \<Longrightarrow> \<not> startsWith t (lit ''[image:'')"
  by (cases t) (auto simp: startsWith_def lit_def)

lemma dashes_startsWith_dash: "startsWith (lit ''---'') (lit ''-'')"
  by (simp add: startsWith_def lit_def)

subsection \<open>The matcher calls its continuation\<close>

lemma greedyStar_cont:
  "greedyStar p s k = Some x \<Longrightarrow> \<exists>s'. k s' = Some x \<and> length s' \<le> length s"
proof (induction s)
  case Nil
  then show ?case by auto
next
  case (Cons a s)
  show ?case
  proof (cases "p a \<and> greedyStar p s k \<noteq> None")
    case True
    with Cons.prems have "greedyStar p s k = Some x" by auto
    from Cons.IH [OF this] show ?thesis by auto
  next
    case False
    with Cons.prems have "k (a # s) = Some x" by (auto split: if_splits option.splits)
    then show ?thesis by auto
  qed
qed

lemma greedyPlus_cont:
  "greedyPlus p s k = Some x \<Longrightarrow> \<exists>s'. k s' = Some x \<and> length s' < length s"
  by (cases s) (auto simp: greedyPlus_def split: if_splits dest!: greedyStar_cont)

lemma rmatch_cont:
  "rmatch r inp s c k = Some x \<Longrightarrow>
   \<exists>s' c'. k s' c' = Some x \<and> length s' \<le> length s \<and> dom c \<union> groups r \<subseteq> dom c'"
proof (induction r arbitrary: s c k)
  case (Lit l)
  then have "k (drop (length l) s) c = Some x" by (auto split: if_splits)
  then show ?case
    by (intro exI [of _ "drop (length l) s"] exI [of _ c]) auto
next
  case (Star p)
  then obtain s' where "k s' c = Some x" "length s' \<le> length s"
    by (auto dest!: greedyStar_cont)
  then show ?case
    by (intro exI [of _ s'] exI [of _ c]) auto
next
  case (Plus p)
  then obtain s' where "k s' c = Some x" "length s' < length s"
    by (auto dest!: greedyPlus_cont)
  then show ?case
    by (intro exI [of _ s'] exI [of _ c]) auto
next
  case (Grp g r)
  from Grp.prems Grp.IH [of s c "\<lambda>s' c'. k s' (c'(g \<mapsto> take (length s - length s') s))" ]
  obtain s' c' where a: "k s' (c'(g \<mapsto> take (length s - length s') s)) = Some x"
    "length s' \<le> length s" "dom c \<union> groups r \<subseteq> dom c'"
    by auto
  have "dom c \<union> groups (Grp g r) \<subseteq> dom (c'(g \<mapsto> take (length s - length s') s))"
    using a(3) by auto
  with a(1,2) show ?case by blast
next
  case (Opt r)
  show ?case
  proof (cases "rmatch r inp s c k")
    case None
    with Opt.prems have "k s c = Some x" by simp
    then show ?thesis
      by (intro exI [of _ s] exI [of _ c]) auto
  next
    case (Some y)
    with Opt.prems have "rmatch r inp s c k = Some x" by simp
    from Opt.IH [OF this] show ?thesis by auto
  qed
next
  case (Seq a b)
  from Seq.prems have "rmatch a inp s c (\<lambda>s' c'. rmatch b inp s' c' k) = Some x" by simp
  from Seq.IH(1) [OF this] obtain s1 c1 where
    1: "rmatch b inp s1 c1 k = Some x" "length s1 \<le> length s" "dom c \<union> groups a \<subseteq> dom c1"
    by auto
  from Seq.IH(2) [OF 1(1)] obtain s2 c2 where
    2: "k s2 c2 = Some x" "length s2 \<le> length s1" "dom c1 \<union> groups b \<subseteq> dom c2"
    by auto
  have "length s2 \<le> length s" "dom c \<union> groups (Seq a b) \<subseteq> dom c2"
    using 1(2,3) 2(2,3) by (simp, simp, blast)
  with 2(1) show ?case by blast
next
  case Bol
  then have "k s c = Some x" by (auto split: if_splits)
  then show ?case
    by (intro exI [of _ s] exI [of _ c]) auto
qed

lemma search_groups:
  "search r inp s = Some (s1, s2, c) \<Longrightarrow> groups r \<subseteq> dom c"
proof (induction s)
  case Nil
  then obtain s' c' where "rmatch r inp [] Map.empty (\<lambda>s' c. Some (s', c)) = Some (s', c')" "c = c'"
    by (auto split: option.splits)
  from rmatch_cont [OF this(1)] this(2) show ?case by auto
next
  case (Cons a s)
  show ?case
  proof (cases "rmatch r inp (a # s) Map.empty (\<lambda>s' c. Some (s', c))")
    case None
    with Cons show ?thesis by simp
  next
    case (Some y)
    with Cons.prems have "rmatch r inp (a # s) Map.empty (\<lambda>s' c. Some (s', c)) = Some (s2, c)"
      by (auto split: prod.splits)
    from rmatch_cont [OF this] show ?thesis by auto
  qed
qed

lemma strMatch_groups:
  "strMatch str r = Some m \<Longrightarrow> g \<in> groups r \<Longrightarrow> \<exists>v. m g = Some v"
  using search_groups [of r str str]
  by (fastforce simp: strMatch_def split: option.splits prod.splits)

lemma imageRx_group1: "strMatch t imageRx = Some m \<Longrightarrow> \<exists>v. m 1 = Some v"
  by (rule strMatch_groups) (auto simp: imageRx_def)

lemma step_total: "\<exists>st'. step i l st = Inr st'"
  by (auto simp: step_def Let_def split: option.splits dest: imageRx_group1)

lemma loop_total: "\<exists>st'. loop lines i st = Inr st'"
proof (induction lines i st rule: loop.induct)
  case (1 lines i st)
  show ?case
  proof (cases "i < length lines")
    case True
    obtain st1 where s: "step i (lines ! i) st = Inr st1"
      using step_total by blast
    from "1.IH" [OF True s] s True show ?thesis
      by (subst loop.simps) simp
  next
    case False
    then show ?thesis by (subst loop.simps) simp
  qed
qed

text \<open>
  C1: for every input string, \<^verbatim>\<open>parsePmap\<close> returns a document, and the loop over the lines
  returns a state from every index and state: the loop ends (the termination proof of
  \<open>loop\<close>), and no step raises, since group 1 of the image pattern is defined in every
  match.
\<close>

theorem parsePmap_total:
  "(\<exists>d. parsePmap input = Inr d) \<and> (\<exists>st'. loop lines i st = Inr st')"
proof
  obtain st0 where "loop (splitStr input 0x0A) 0 initState = Inr st0"
    using loop_total by blast
  then show "\<exists>d. parsePmap input = Inr d"
    by (simp add: parsePmap_def)
next
  show "\<exists>st'. loop lines i st = Inr st'"
    by (rule loop_total)
qed

subsection \<open>The heading level\<close>

lemma greedyStar_longest:
  "k (dropWhile p s) = Some x \<Longrightarrow> greedyStar p s k = Some x"
  by (induction s) auto

lemma length_takeWhile_dropWhile:
  "length s - length (dropWhile p s) = length (takeWhile p s)"
proof -
  have "length (takeWhile p s) + length (dropWhile p s) = length s"
    by (metis length_append takeWhile_dropWhile_id)
  then show ?thesis by simp
qed

lemma take_length_takeWhile: "take (length (takeWhile p s)) s = takeWhile p s"
  by (metis append_eq_conv_conj takeWhile_dropWhile_id)

lemma strMatch_headingRx:
  assumes "startsWith t (lit ''#'')"
  shows "\<exists>m. strMatch t headingRx = Some m \<and> m 0 = Some (takeWhile (\<lambda>c. c = 0x23) t)"
proof -
  from assms obtain xs where t: "t = 0x23 # xs"
    by (cases t) (auto simp: startsWith_def lit_def)
  let ?k = "\<lambda>s'. Some (s', Map.empty :: captures)"
  have "greedyStar (\<lambda>c. c = 0x23) xs ?k = Some (dropWhile (\<lambda>c. c = 0x23) xs, Map.empty)"
    by (rule greedyStar_longest) simp
  then have "search headingRx t t = Some (t, dropWhile (\<lambda>c. c = 0x23) xs, Map.empty)"
    by (simp add: t headingRx_def greedyPlus_def)
  moreover have "take (length t - length (dropWhile (\<lambda>c. c = 0x23) xs)) t = takeWhile (\<lambda>c. c = 0x23) t"
  proof -
    have "dropWhile (\<lambda>c. c = 0x23) xs = dropWhile (\<lambda>c. c = 0x23) t" by (simp add: t)
    then show ?thesis
      by (simp only: length_takeWhile_dropWhile take_length_takeWhile)
  qed
  ultimately show ?thesis by (simp add: strMatch_def)
qed

lemma takeWhile_hash_pos:
  "startsWith t (lit ''#'') \<Longrightarrow> 0 < length (takeWhile (\<lambda>c. c = 0x23) t)"
  by (cases t) (auto simp: startsWith_def lit_def)

lemma step_heading:
  assumes "\<not> inMetadata st" "startsWith (trim l) (lit ''#'')"
  shows "step i l st =
    Inr (pushSection
      (headingSection (trim (drop (length (takeWhile (\<lambda>c. c = 0x23) (trim l))) (trim l)))
         (length (takeWhile (\<lambda>c. c = 0x23) (trim l))))
      (endList st))"
proof -
  from strMatch_headingRx [OF assms(2)] obtain m where
    m: "strMatch (trim l) headingRx = Some m" "m 0 = Some (takeWhile (\<lambda>c. c = 0x23) (trim l))"
    by blast
  have ne: "trim l \<noteq> []" "trim l \<noteq> lit ''---''"
    using assms(2) by (auto simp: startsWith_def lit_def)
  show ?thesis
    using assms ne m takeWhile_hash_pos [OF assms(2)]
    by (simp add: step_def Let_def substring_def)
qed

subsection \<open>The other branches of the loop body\<close>

lemma step_image:
  assumes "\<not> inMetadata st" "startsWith (trim l) (lit ''[image:'')"
  shows "step i l st =
    (case strMatch (trim l) imageRx of
       None \<Rightarrow> Inr (endList st)
     | Some m \<Rightarrow>
         (case m 1 of
            None \<Rightarrow> Inl TypeError
          | Some m1 \<Rightarrow>
              Inr (pushSection
                (imageSection (trim m1)
                   (case m 2 of None \<Rightarrow> [] | Some m2 \<Rightarrow> if trim m2 = [] then [] else trim m2))
                (endList st))))"
  using assms startsWith_ne [OF assms(2)] startsWith_image_not_dashes [OF assms(2)]
    startsWith_image_not_hash [OF assms(2)]
  by (simp add: step_def Let_def)

lemma step_item:
  assumes "\<not> inMetadata st" "startsWith (trim l) (lit ''-'')" "trim l = lit ''---'' \<longrightarrow> 0 < i"
  shows "step i l st =
    Inr (st\<lparr>currentList :=
      Some ((case currentList st of None \<Rightarrow> [] | Some xs \<Rightarrow> xs) @ [trim (drop 1 (trim l))])\<rparr>)"
  using assms startsWith_ne [OF assms(2)] startsWith_dash_not_hash [OF assms(2)]
    startsWith_dash_not_image [OF assms(2)]
  by (auto simp: step_def Let_def substring_def)

lemma step_text:
  assumes "\<not> inMetadata st" "trim l \<noteq> []" "\<not> startsWith (trim l) (lit ''#'')"
    "\<not> startsWith (trim l) (lit ''[image:'')" "\<not> startsWith (trim l) (lit ''-'')"
  shows "step i l st = Inr (pushSection (textSection (trim l)) (endList st))"
proof -
  have "trim l \<noteq> lit ''---''"
    using assms(5) dashes_startsWith_dash by auto
  with assms show ?thesis
    by (simp add: step_def Let_def)
qed

text \<open>The effect of one step on the sections: nothing, or a flush and perhaps one section.\<close>

lemma step_shape:
  assumes "step i l st = Inr st'"
  shows "(sections (result st') = sections (result st) \<and> currentList st' = currentList st)
    \<or> (sections (result st') = sections (result st) \<and>
        (\<exists>x. currentList st' = Some ((case currentList st of None \<Rightarrow> [] | Some xs \<Rightarrow> xs) @ [x])))
    \<or> (currentList st' = None \<and>
        (\<exists>more. sections (result st') = sections (result (endList st)) @ more \<and>
           (\<forall>s\<in>set more. type s \<noteq> SList)))"
proof (cases "trim l = []")
  case True
  with assms have "st' = endList st" by (simp add: step_blank)
  then show ?thesis
    by (auto simp: endList_def pushSection_def split: option.splits)
next
  case ne: False
  show ?thesis
  proof (cases "trim l = lit ''---'' \<and> (i = 0 \<or> inMetadata st)")
    case True
    with assms ne have "st' = st\<lparr>inMetadata := True\<rparr> \<or> st' = st\<lparr>inMetadata := False\<rparr>"
      by (auto simp: step_def Let_def split: if_splits)
    then show ?thesis by auto
  next
    case nd: False
    show ?thesis
    proof (cases "inMetadata st")
      case True
      with nd have "trim l \<noteq> lit ''---''" by simp
      from step_meta [OF True ne this, of i] assms show ?thesis
        by (auto split: if_splits)
    next
      case nm: False
      show ?thesis
      proof (cases "startsWith (trim l) (lit ''#'')")
        case True
        from step_heading [OF nm True, of i] assms show ?thesis
          by (auto simp: pushSection_def headingSection_def endList_def split: option.splits)
      next
        case nh: False
        show ?thesis
        proof (cases "startsWith (trim l) (lit ''[image:'')")
          case True
          from step_image [OF nm True, of i] assms show ?thesis
            by (auto simp: pushSection_def imageSection_def endList_def split: option.splits)
        next
          case ni: False
          show ?thesis
          proof (cases "startsWith (trim l) (lit ''-'')")
            case True
            have "trim l = lit ''---'' \<longrightarrow> 0 < i" using nd by auto
            from step_item [OF nm True this] assms show ?thesis
              by auto
          next
            case False
            from step_text [OF nm ne nh ni False, of i] assms show ?thesis
              by (auto simp: pushSection_def textSection_def endList_def split: option.splits)
          qed
        qed
      qed
    qed
  qed
qed

subsection \<open>The loop\<close>

lemma loop_step:
  "i < length lines \<Longrightarrow> step i (lines ! i) st = Inr st' \<Longrightarrow>
   loop lines i st = loop lines (Suc i) st'"
  by (subst loop.simps) simp

lemma loop_end: "length lines \<le> i \<Longrightarrow> loop lines i st = Inr st"
  by (subst loop.simps) simp

lemma loop_scan: "loop lines i st = scan i (drop i lines) st"
proof (induction lines i st rule: loop.induct)
  case (1 lines i st)
  show ?case
  proof (cases "i < length lines")
    case True
    then have d: "drop i lines = lines ! i # drop (Suc i) lines"
      by (simp add: Cons_nth_drop_Suc)
    show ?thesis
    proof (cases "step i (lines ! i) st")
      case (Inl e)
      with True d show ?thesis by (subst loop.simps) simp
    next
      case (Inr st1)
      from "1.IH" [OF True Inr] Inr True d show ?thesis
        by (subst loop.simps) simp
    qed
  next
    case False
    then show ?thesis by (subst loop.simps) simp
  qed
qed

lemma scan_append:
  "scan i (xs @ ys) st =
     (case scan i xs st of Inl e \<Rightarrow> Inl e | Inr st' \<Rightarrow> scan (i + length xs) ys st')"
  by (induction xs arbitrary: i st) (auto split: sum.splits)

lemma scan_total: "\<exists>st'. scan i ls st = Inr st'"
  using loop_total [of "replicate i [] @ ls" i st] by (simp add: loop_scan)

lemma loop_prefix:
  assumes "loop xs 0 st = Inr st1"
  shows "loop (xs @ ys) 0 st = loop (xs @ ys) (length xs) st1"
  using assms by (simp add: loop_scan scan_append)

lemma scan_invariant:
  assumes "P st" "\<And>i l st st'. P st \<Longrightarrow> step i l st = Inr st' \<Longrightarrow> P st'"
    "scan i ls st = Inr st'"
  shows "P st'"
  using assms(1,3)
proof (induction ls arbitrary: i st)
  case Nil
  then show ?case by simp
next
  case (Cons l ls)
  obtain st1 where s: "step i l st = Inr st1"
    using step_total by blast
  with Cons.prems have "scan (Suc i) ls st1 = Inr st'" by simp
  moreover have "P st1" using assms(2) Cons.prems(1) s by blast
  ultimately show ?case using Cons.IH by blast
qed

lemma loop_invariant:
  assumes "P st" "\<And>i l st st'. P st \<Longrightarrow> step i l st = Inr st' \<Longrightarrow> P st'"
    "loop lines i st = Inr st'"
  shows "P st'"
  using scan_invariant [of P st i "drop i lines" st'] assms by (simp add: loop_scan)

subsection \<open>Sections are only appended\<close>

lemma sections_endList:
  "sections (result (endList st)) =
     sections (result st) @ (case currentList st of None \<Rightarrow> [] | Some xs \<Rightarrow> [listSection xs])"
  by (simp add: endList_def pushSection_def split: option.splits)

lemma step_sections_grow:
  assumes "step i l st = Inr st'"
  shows "\<exists>more. sections (result st') = sections (result st) @ more"
  using step_shape [OF assms] by (auto simp: sections_endList)

lemma loop_sections_grow:
  assumes "loop lines i st = Inr st'"
  shows "\<exists>more. sections (result st') = sections (result st) @ more"
proof -
  have "\<exists>more. sections (result st') = sections (result st) @ more"
  proof (rule loop_invariant [where P = "\<lambda>s. \<exists>more. sections (result s) = sections (result st) @ more"])
    show "\<exists>more. sections (result st) = sections (result st) @ more" by simp
  next
    fix i l s s'
    assume "\<exists>more. sections (result s) = sections (result st) @ more" "step i l s = Inr s'"
    then show "\<exists>more. sections (result s') = sections (result st) @ more"
      using step_sections_grow [of i l s s'] by auto
  next
    show "loop lines i st = Inr st'" by fact
  qed
  then show ?thesis .
qed

subsection \<open>No empty list\<close>

lemma step_lists_nonempty:
  assumes "step i l st = Inr st'"
    and "\<forall>xs. currentList st = Some xs \<longrightarrow> xs \<noteq> []"
    and "\<forall>s\<in>set (sections (result st)). type s = SList \<longrightarrow> (\<exists>xs. items s = Some xs \<and> xs \<noteq> [])"
  shows "(\<forall>xs. currentList st' = Some xs \<longrightarrow> xs \<noteq> []) \<and>
    (\<forall>s\<in>set (sections (result st')). type s = SList \<longrightarrow> (\<exists>xs. items s = Some xs \<and> xs \<noteq> []))"
proof -
  have e: "\<forall>s\<in>set (sections (result (endList st))). type s = SList \<longrightarrow> (\<exists>xs. items s = Some xs \<and> xs \<noteq> [])"
    using assms(2,3) by (cases "currentList st") (auto simp: sections_endList listSection_def)
  from step_shape [OF assms(1)] show ?thesis
  proof (elim disjE conjE exE)
    assume "sections (result st') = sections (result st)" "currentList st' = currentList st"
    with assms(2,3) show ?thesis by simp
  next
    fix x
    assume "sections (result st') = sections (result st)"
      "currentList st' = Some ((case currentList st of None \<Rightarrow> [] | Some xs \<Rightarrow> xs) @ [x])"
    with assms(3) show ?thesis by simp
  next
    fix more
    assume "currentList st' = None" "sections (result st') = sections (result (endList st)) @ more"
      "\<forall>s\<in>set more. type s \<noteq> SList"
    with e show ?thesis by auto
  qed
qed

text \<open>
  C3: every \<open>list\<close> section of the document that \<^verbatim>\<open>parsePmap\<close> returns has at least one
  item.
\<close>

theorem list_sections_nonempty:
  assumes "parsePmap input = Inr d" "s \<in> set (sections d)" "type s = SList"
  shows "\<exists>xs. items s = Some xs \<and> xs \<noteq> []"
proof -
  let ?P = "\<lambda>st. (\<forall>xs. currentList st = Some xs \<longrightarrow> xs \<noteq> []) \<and>
    (\<forall>s\<in>set (sections (result st)). type s = SList \<longrightarrow> (\<exists>xs. items s = Some xs \<and> xs \<noteq> []))"
  from assms(1) obtain st where l: "loop (splitStr input 0x0A) 0 initState = Inr st"
    and d: "d = result (endList st)"
    by (auto simp: parsePmap_def Let_def split: sum.splits)
  have "?P st"
  proof (rule loop_invariant [where P = ?P, OF _ _ l])
    show "?P initState" by (simp add: initState_def)
  next
    fix i l st st'
    assume "?P st" "step i l st = Inr st'"
    then show "?P st'" using step_lists_nonempty [of i l st st'] by blast
  qed
  then have "\<forall>s\<in>set (sections (result (endList st))). type s = SList \<longrightarrow> (\<exists>xs. items s = Some xs \<and> xs \<noteq> [])"
    by (cases "currentList st") (auto simp: sections_endList listSection_def)
  with assms(2,3) d show ?thesis by blast
qed

theorem list_sections_nonempty_witness:
  "parsePmap (lit ''- a'') = Inr \<lparr>title = None, description = None, sections = [listSection [lit ''a'']]\<rparr>
   \<and> (\<exists>xs. items (listSection [lit ''a'']) = Some xs \<and> xs \<noteq> [])"
proof -
  have p: "parsePmap (lit ''- a'') = Inr \<lparr>title = None, description = None, sections = [listSection [lit ''a'']]\<rparr>"
    by code_simp
  have m: "listSection [lit ''a''] \<in> set (sections \<lparr>title = None, description = None, sections = [listSection [lit ''a'']]\<rparr>)"
    by simp
  have t: "type (listSection [lit ''a'']) = SList"
    by (simp add: listSection_def)
  from list_sections_nonempty [OF p m t] p show ?thesis by simp
qed

subsection \<open>A heading of any level\<close>

lemma trim_id:
  assumes "s \<noteq> []" "\<not> isWhiteSpace (hd s)" "\<not> isWhiteSpace (last s)"
  shows "trim s = s"
proof -
  have 1: "dropWhile isWhiteSpace s = s"
    using assms(1,2) by (cases s) auto
  obtain y ys where r: "rev s = y # ys"
    using assms(1) by (cases "rev s") auto
  then have "y = last s"
    using hd_rev [of s] by simp
  with assms(3) have 2: "dropWhile isWhiteSpace (rev s) = rev s"
    unfolding r by simp
  show ?thesis by (simp add: trim_def 1 2)
qed

lemma splitStr_no_sep: "sep \<notin> set s \<Longrightarrow> splitStr s sep = [s]"
  by (induction s) auto

lemma loop_single: "loop [l] 0 st = step 0 l st"
  by (simp add: loop_scan split: sum.splits)

lemma hashes_heading:
  assumes "0 < k"
  shows "parsePmap (replicate k 0x23 @ lit '' X'') =
    Inr \<lparr>title = None, description = None, sections = [headingSection (lit ''X'') k]\<rparr>"
proof -
  let ?s = "replicate k (0x23 :: cu) @ lit '' X''"
  have sp: "splitStr ?s 0x0A = [?s]"
    by (rule splitStr_no_sep) (simp add: lit_def)
  have hd: "hd ?s = 0x23"
    using assms by (cases k) simp_all
  have tr: "trim ?s = ?s"
    by (rule trim_id) (simp_all add: hd, simp_all add: lit_def isWhiteSpace_def isLineTerminator_def)
  have sw: "startsWith (trim ?s) (lit ''#'')"
    unfolding tr using assms by (cases k) (simp_all add: startsWith_def lit_def)
  have tw: "takeWhile (\<lambda>c. c = 0x23) ?s = replicate k 0x23"
    by (induction k) (simp_all add: lit_def)
  have x: "trim (lit '' X'') = lit ''X''"
    by code_simp
  have "step 0 ?s initState = Inr (pushSection (headingSection (lit ''X'') k) (endList initState))"
    using step_heading [of initState ?s 0] sw
    by (simp add: tr tw x) (simp add: initState_def)
  then show ?thesis
    by (simp add: parsePmap_def sp loop_single)
      (simp add: endList_def pushSection_def initState_def)
qed

subsection \<open>The metadata block\<close>

lemma metaValue_snoc:
  "metaValue key (ms @ [m]) =
     (if startsWith (trim m) key then Some (trim (substring (trim m) (length key)))
      else metaValue key ms)"
  by (cases "filter (\<lambda>m. startsWith (trim m) key) ms") (simp_all add: metaValue_def)

lemma metaValue_Nil: "metaValue key [] = None"
  by (simp add: metaValue_def)

lemma title_not_description:
  "startsWith t (lit ''title:'') \<Longrightarrow> \<not> startsWith t (lit ''description:'')"
  by (cases t) (auto simp: startsWith_def lit_def)

lemma blank_no_key: "\<not> startsWith [] (lit (c # cs))"
  by (simp add: startsWith_def lit_def)

lemma endList_None: "currentList st = None \<Longrightarrow> endList st = st"
  by (simp add: endList_def)

lemma scan_metadata:
  assumes "inMetadata st" "currentList st = None" "\<forall>m\<in>set ms. trim m \<noteq> lit ''---''"
  shows "scan i ms st =
    Inr (st\<lparr>result := (result st)
      \<lparr>title := (case metaValue (lit ''title:'') ms of None \<Rightarrow> title (result st) | Some v \<Rightarrow> Some v),
       description :=
         (case metaValue (lit ''description:'') ms of None \<Rightarrow> description (result st) | Some v \<Rightarrow> Some v)\<rparr>\<rparr>)"
  using assms(3)
proof (induction ms rule: rev_induct)
  case Nil
  show ?case by (simp add: metaValue_Nil)
next
  case (snoc m ms)
  let ?st1 = "st\<lparr>result := (result st)
      \<lparr>title := (case metaValue (lit ''title:'') ms of None \<Rightarrow> title (result st) | Some v \<Rightarrow> Some v),
       description :=
         (case metaValue (lit ''description:'') ms of None \<Rightarrow> description (result st) | Some v \<Rightarrow> Some v)\<rparr>\<rparr>"
  have 1: "scan i ms st = Inr ?st1"
    using snoc by simp
  have m: "inMetadata ?st1" "currentList ?st1 = None" "trim m \<noteq> lit ''---''"
    using assms(1,2) snoc.prems by simp_all
  have len: "length (lit ''title:'') = 6" "length (lit ''description:'') = 12"
    by (simp_all add: lit_def)
  show ?case
  proof (cases "trim m = []")
    case True
    then have "step (i + length ms) m ?st1 = Inr ?st1"
      using m(2) by (simp add: step_blank endList_None)
    then show ?thesis
      using True by (simp add: scan_append 1 metaValue_snoc blank_no_key)
  next
    case False
    from step_meta [OF m(1) False m(3), of "i + length ms"]
    show ?thesis
      by (auto simp: scan_append 1 metaValue_snoc len title_not_description)
  qed
qed

lemma step_carry:
  assumes "\<not> inMetadata st" "0 < i"
  shows "step i l (st\<lparr>result := (result st)\<lparr>title := T, description := D\<rparr>\<rparr>) =
    (case step i l st of
       Inl e \<Rightarrow> Inl e
     | Inr st' \<Rightarrow> Inr (st'\<lparr>result := (result st')\<lparr>title := T, description := D\<rparr>\<rparr>))"
  using assms
  by (simp add: step_def Let_def endList_def pushSection_def split: option.splits)

lemma step_stays_outside:
  assumes "\<not> inMetadata st" "0 < i" "step i l st = Inr st'"
  shows "\<not> inMetadata st'"
  using assms
  by (auto simp: step_def Let_def endList_def pushSection_def split: option.splits if_splits)

lemma scan_carry:
  assumes "\<not> inMetadata st" "0 < i"
  shows "scan i ls (st\<lparr>result := (result st)\<lparr>title := T, description := D\<rparr>\<rparr>) =
    (case scan i ls st of
       Inl e \<Rightarrow> Inl e
     | Inr st' \<Rightarrow> Inr (st'\<lparr>result := (result st')\<lparr>title := T, description := D\<rparr>\<rparr>))"
  using assms
proof (induction ls arbitrary: i st)
  case Nil
  show ?case by simp
next
  case (Cons l ls)
  obtain st1 where s: "step i l st = Inr st1"
    using step_total by blast
  have o: "\<not> inMetadata st1"
    using step_stays_outside [OF Cons.prems s] .
  show ?case
    using Cons.IH [OF o, of "Suc i"] step_carry [OF Cons.prems, where l = l and T = T and D = D] s by simp
qed

lemma scan_block:
  assumes "trim l0 = lit ''---''" "\<forall>m\<in>set ms. trim m \<noteq> lit ''---''"
  shows "scan 0 (l0 # ms @ rest) initState =
    scan (Suc (length ms)) rest
      \<lparr>result = \<lparr>title = metaValue (lit ''title:'') ms,
                 description = metaValue (lit ''description:'') ms, sections = []\<rparr>,
       currentList = None, inMetadata = True\<rparr>"
proof -
  let ?st0 = "initState\<lparr>inMetadata := True\<rparr>"
  have "scan 0 (l0 # ms @ rest) initState = scan (Suc 0) (ms @ rest) ?st0"
    using assms(1) by (simp add: step_open)
  also have "\<dots> = scan (Suc (length ms)) rest
      \<lparr>result = \<lparr>title = metaValue (lit ''title:'') ms,
                 description = metaValue (lit ''description:'') ms, sections = []\<rparr>,
       currentList = None, inMetadata = True\<rparr>"
    using scan_metadata [of ?st0 ms "Suc 0"] assms(2)
    by (simp add: scan_append, simp add: initState_def split: option.splits)
  finally show ?thesis .
qed

lemma metadata_block_scan:
  assumes "splitStr input 0x0A = l0 # ms @ rest"
    and "trim l0 = lit ''---''"
    and "\<forall>m\<in>set ms. trim m \<noteq> lit ''---''"
    and "rest = [] \<or> trim (hd rest) = lit ''---''"
  shows "\<exists>d st. parsePmap input = Inr d
    \<and> title d = metaValue (lit ''title:'') ms
    \<and> description d = metaValue (lit ''description:'') ms
    \<and> scan (length ms + 2) (tl rest) initState = Inr st
    \<and> sections d = sections (result (endList st))"
proof (cases rest)
  case Nil
  have "parsePmap input =
    Inr \<lparr>title = metaValue (lit ''title:'') ms,
         description = metaValue (lit ''description:'') ms, sections = []\<rparr>"
    using scan_block [OF assms(2,3), of "[]"] assms(1) Nil
    by (simp add: parsePmap_def loop_scan endList_def)
  then show ?thesis
    using Nil by (simp add: endList_def initState_def)
next
  case (Cons cl body)
  with assms(4) have cl: "trim cl = lit ''---''"
    by simp
  let ?T = "metaValue (lit ''title:'') ms" and ?D = "metaValue (lit ''description:'') ms"
  let ?st1 = "\<lparr>result = \<lparr>title = ?T, description = ?D, sections = []\<rparr>,
       currentList = None, inMetadata = True\<rparr>"
  let ?st2 = "initState\<lparr>result := (result initState)\<lparr>title := ?T, description := ?D\<rparr>\<rparr>"
  obtain st where st: "scan (length ms + 2) body initState = Inr st"
    using scan_total by blast
  have "step (Suc (length ms)) cl ?st1 = Inr (?st1\<lparr>inMetadata := False\<rparr>)"
    using cl by (simp add: step_close)
  moreover have "?st1\<lparr>inMetadata := False\<rparr> = ?st2"
    by (simp add: initState_def)
  ultimately have "scan 0 (l0 # ms @ cl # body) initState = scan (length ms + 2) body ?st2"
    using scan_block [OF assms(2,3), of "cl # body"] by simp
  also have "\<dots> = Inr (st\<lparr>result := (result st)\<lparr>title := ?T, description := ?D\<rparr>\<rparr>)"
    using scan_carry [where st = initState and i = "length ms + 2" and ls = body and T = ?T and D = ?D] st
    by (simp add: initState_def)
  finally have "parsePmap input =
    Inr (result (endList (st\<lparr>result := (result st)\<lparr>title := ?T, description := ?D\<rparr>\<rparr>)))"
    by (simp add: parsePmap_def assms(1) Cons loop_scan)
  moreover have "result (endList (st\<lparr>result := (result st)\<lparr>title := ?T, description := ?D\<rparr>\<rparr>)) =
    (result (endList st))\<lparr>title := ?T, description := ?D\<rparr>"
    by (simp add: endList_def pushSection_def split: option.splits)
  ultimately show ?thesis
    using st Cons by simp
qed

text \<open>
  C6: in a document whose first line trims to \<open>---\<close>, the block being the lines \<open>ms\<close> up
  to the next line that trims to \<open>---\<close> (or to the end of the input): the title and the
  description of the result are those of the last \<open>title:\<close> and \<open>description:\<close> lines of
  the block (\<open>metaValue\<close>), and the sections are those that the lines after the closing
  line give from the initial state, so the lines of the block push none.
\<close>

theorem metadata_block:
  assumes "splitStr input 0x0A = l0 # ms @ rest"
    and "trim l0 = lit ''---''"
    and "\<forall>m\<in>set ms. trim m \<noteq> lit ''---''"
    and "rest = [] \<or> trim (hd rest) = lit ''---''"
  shows "\<exists>d st. parsePmap input = Inr d
    \<and> title d = metaValue (lit ''title:'') ms
    \<and> description d = metaValue (lit ''description:'') ms
    \<and> loop (l0 # ms @ rest) (length ms + 2) initState = Inr st
    \<and> sections d = sections (result (endList st))"
proof -
  have "loop (l0 # ms @ rest) (length ms + 2) initState =
    scan (length ms + 2) (tl rest) initState"
    by (cases rest) (simp_all add: loop_scan)
  with metadata_block_scan [OF assms] show ?thesis by simp
qed

theorem metadata_block_witness:
  "\<exists>d st. parsePmap (lit ''---\<newline>title: Old\<newline>title: My Doc\<newline>description: A test\<newline>---\<newline># Welcome'') = Inr d
    \<and> title d = Some (lit ''My Doc'')
    \<and> description d = Some (lit ''A test'')
    \<and> loop [lit ''---'', lit ''title: Old'', lit ''title: My Doc'', lit ''description: A test'',
             lit ''---'', lit ''# Welcome''] 5 initState = Inr st
    \<and> sections d = [headingSection (lit ''Welcome'') 1]"
proof -
  let ?input = "lit ''---\<newline>title: Old\<newline>title: My Doc\<newline>description: A test\<newline>---\<newline># Welcome''"
  let ?ms = "[lit ''title: Old'', lit ''title: My Doc'', lit ''description: A test'']"
  let ?lines = "[lit ''---'', lit ''title: Old'', lit ''title: My Doc'', lit ''description: A test'',
             lit ''---'', lit ''# Welcome'']"
  have 1: "splitStr ?input 0x0A = lit ''---'' # ?ms @ [lit ''---'', lit ''# Welcome'']"
    by code_simp
  have 2: "trim (lit ''---'') = lit ''---''"
    by code_simp
  have 3: "\<forall>m\<in>set ?ms. trim m \<noteq> lit ''---''"
    by code_simp
  have t: "metaValue (lit ''title:'') ?ms = Some (lit ''My Doc'')"
    by code_simp
  have d: "metaValue (lit ''description:'') ?ms = Some (lit ''A test'')"
    by code_simp
  have s: "loop ?lines 5 initState =
    Inr (pushSection (headingSection (lit ''Welcome'') 1) initState)"
    unfolding loop_scan by code_simp
  have n: "length ?ms + 2 = 5" "lit ''---'' # ?ms @ [lit ''---'', lit ''# Welcome''] = ?lines"
    by simp_all
  have 4: "[lit ''---'', lit ''# Welcome''] = [] \<or> trim (hd [lit ''---'', lit ''# Welcome'']) = lit ''---''"
    using 2 by simp
  from metadata_block [OF 1 2 3 4] obtain d st where r: "parsePmap ?input = Inr d"
    "title d = Some (lit ''My Doc'')" "description d = Some (lit ''A test'')"
    "loop ?lines 5 initState = Inr st" "sections d = sections (result (endList st))"
    unfolding t d n by blast
  from r(4) have "st = pushSection (headingSection (lit ''Welcome'') 1) initState"
    unfolding s by simp
  with r(5) have "sections d = [headingSection (lit ''Welcome'') 1]"
    by (simp add: endList_def pushSection_def initState_def)
  with r(1-4) show ?thesis by blast
qed

text \<open>
  C8: when the first line trims to \<open>---\<close> and no later line does, the block stays open
  to the end of the input: the lines can only set the title and the description, and
  the result has no section.
\<close>

theorem metadata_unclosed:
  assumes "splitStr input 0x0A = l0 # ms"
    and "trim l0 = lit ''---''"
    and "\<forall>m\<in>set ms. trim m \<noteq> lit ''---''"
  shows "parsePmap input =
    Inr \<lparr>title = metaValue (lit ''title:'') ms,
         description = metaValue (lit ''description:'') ms, sections = []\<rparr>"
  using scan_block [OF assms(2,3), of "[]"]
  by (simp add: parsePmap_def assms(1) loop_scan endList_def)

theorem metadata_unclosed_witness:
  "parsePmap (lit ''---\<newline>title: T\<newline># Heading\<newline>- item\<newline>text'') =
    Inr \<lparr>title = Some (lit ''T''), description = None, sections = []\<rparr>"
proof -
  let ?input = "lit ''---\<newline>title: T\<newline># Heading\<newline>- item\<newline>text''"
  let ?ms = "[lit ''title: T'', lit ''# Heading'', lit ''- item'', lit ''text'']"
  have 1: "splitStr ?input 0x0A = lit ''---'' # ?ms"
    by code_simp
  have 2: "trim (lit ''---'') = lit ''---''"
    by code_simp
  have 3: "\<forall>m\<in>set ?ms. trim m \<noteq> lit ''---''"
    by code_simp
  have t: "metaValue (lit ''title:'') ?ms = Some (lit ''T'')"
    by code_simp
  have d: "metaValue (lit ''description:'') ?ms = None"
    by code_simp
  from metadata_unclosed [OF 1 2 3] show ?thesis
    unfolding t d .
qed

subsection \<open>The loop on a run of list items\<close>

lemma endList_idem: "endList (endList st) = endList st"
  by (simp add: endList_def split: option.splits)

lemma inMetadata_endList: "inMetadata (endList st) = inMetadata st"
  by (simp add: endList_def pushSection_def split: option.splits)

lemma not_dash_not_dashes: "\<not> startsWith t (lit ''-'') \<Longrightarrow> t \<noteq> lit ''---''"
  using dashes_startsWith_dash by auto

lemma step_after_flush:
  assumes "\<not> inMetadata st" "\<not> startsWith (trim l) (lit ''-'')"
  shows "step i l st = step i l (endList st)"
  using assms not_dash_not_dashes [OF assms(2)]
  by (simp add: step_def Let_def endList_idem inMetadata_endList)

lemma scan_run:
  assumes "\<not> inMetadata st" "\<forall>l\<in>set run. startsWith (trim l) (lit ''-'')"
    "i = 0 \<longrightarrow> run = [] \<or> trim (hd run) \<noteq> lit ''---''"
  shows "scan i run st =
    Inr (st\<lparr>currentList :=
      (if run = [] then currentList st
       else Some ((case currentList st of None \<Rightarrow> [] | Some xs \<Rightarrow> xs) @
                  map (\<lambda>l. trim (drop 1 (trim l))) run))\<rparr>)"
  using assms
proof (induction run arbitrary: i st)
  case Nil
  show ?case by simp
next
  case (Cons l run)
  let ?st1 = "st\<lparr>currentList :=
      Some ((case currentList st of None \<Rightarrow> [] | Some xs \<Rightarrow> xs) @ [trim (drop 1 (trim l))])\<rparr>"
  have s: "step i l st = Inr ?st1"
    using Cons.prems by (intro step_item) auto
  have "scan (Suc i) run ?st1 =
    Inr (?st1\<lparr>currentList :=
      (if run = [] then currentList ?st1
       else Some ((case currentList ?st1 of None \<Rightarrow> [] | Some xs \<Rightarrow> xs) @
                  map (\<lambda>l. trim (drop 1 (trim l))) run))\<rparr>)"
    using Cons.prems by (intro Cons.IH) auto
  with s show ?case by simp
qed

lemma step_no_item:
  assumes "\<not> startsWith (trim l) (lit ''-'')" "currentList st = None" "step i l st = Inr st'"
  shows "currentList st' = None \<and>
    (\<exists>more. sections (result st') = sections (result st) @ more \<and> (\<forall>s\<in>set more. type s \<noteq> SList))"
proof -
  have c: "currentList st' = None"
    using assms not_dash_not_dashes [OF assms(1)]
    by (auto simp: step_def Let_def endList_def pushSection_def split: if_splits option.splits)
  from step_shape [OF assms(3)] c assms(2) show ?thesis
    by (auto simp: endList_None)
qed

lemma scan_no_item:
  assumes "\<forall>l\<in>set ls. \<not> startsWith (trim l) (lit ''-'')" "currentList st = None"
    "\<forall>s\<in>set (sections (result st)). type s \<noteq> SList" "scan i ls st = Inr st'"
  shows "currentList st' = None \<and> (\<forall>s\<in>set (sections (result st')). type s \<noteq> SList)"
  using assms
proof (induction ls arbitrary: i st)
  case Nil
  then show ?case by simp
next
  case (Cons l ls)
  obtain st1 where s: "step i l st = Inr st1"
    using step_total by blast
  have "currentList st1 = None \<and> (\<forall>s\<in>set (sections (result st1)). type s \<noteq> SList)"
    using step_no_item [OF _ Cons.prems(2) s] Cons.prems(1,3) by auto
  moreover have "scan (Suc i) ls st1 = Inr st'"
    using Cons.prems(4) s by simp
  ultimately show ?case
    using Cons.IH [of st1 "Suc i"] Cons.prems(1) by simp
qed

lemma step_paragraph:
  "\<not> inMetadata st \<Longrightarrow> isParagraphLine l \<Longrightarrow>
   step i l st = Inr (pushSection (textSection (trim l)) (endList st))"
  by (simp add: isParagraphLine_def step_text)

lemma text_list_text:
  assumes "splitStr input 0x0A = [p1, l, b, p2]"
    and "isParagraphLine p1" and "startsWith (trim l) (lit ''-'')" and "trim b = []"
    and "isParagraphLine p2"
  shows "parsePmap input =
    Inr \<lparr>title = None, description = None,
         sections = [textSection (trim p1), listSection [trim (drop 1 (trim l))],
                     textSection (trim p2)]\<rparr>"
proof -
  let ?s1 = "pushSection (textSection (trim p1)) initState"
  let ?s2 = "?s1\<lparr>currentList := Some [trim (drop 1 (trim l))]\<rparr>"
  let ?s3 = "endList ?s2"
  let ?s4 = "pushSection (textSection (trim p2)) (endList ?s3)"
  have 1: "step 0 p1 initState = Inr ?s1"
    using step_paragraph [OF _ assms(2), of initState 0]
    by (simp add: initState_def endList_def)
  have 2: "step 1 l ?s1 = Inr ?s2"
    using step_item [OF _ assms(3), of ?s1 1]
    by (simp add: initState_def pushSection_def)
  have 3: "step 2 b ?s2 = Inr ?s3"
    using assms(4) by (rule step_blank)
  have 4: "step 3 p2 ?s3 = Inr ?s4"
    using step_paragraph [OF _ assms(5), of ?s3 3]
    by (simp add: initState_def pushSection_def endList_def)
  have "scan 0 [p1, l, b, p2] initState = Inr ?s4"
    using 1 2 3 4 by (simp add: numeral_3_eq_3 numeral_2_eq_2)
  then show ?thesis
    by (simp add: parsePmap_def assms(1) loop_scan)
      (simp add: endList_def pushSection_def initState_def)
qed

subsection \<open>What a match looks like\<close>

lemma greedyStar_shape:
  "greedyStar p s k = Some x \<Longrightarrow> \<exists>a b. s = a @ b \<and> (\<forall>c\<in>set a. p c) \<and> k b = Some x"
proof (induction s)
  case Nil
  then show ?case by simp
next
  case (Cons z s)
  show ?case
  proof (cases "p z \<and> greedyStar p s k \<noteq> None")
    case True
    with Cons.prems have "greedyStar p s k = Some x" by auto
    from Cons.IH [OF this] obtain a b where "s = a @ b" "\<forall>c\<in>set a. p c" "k b = Some x"
      by blast
    with True have "z # s = (z # a) @ b \<and> (\<forall>c\<in>set (z # a). p c) \<and> k b = Some x"
      by simp
    then show ?thesis by blast
  next
    case False
    with Cons.prems have "k (z # s) = Some x"
      by (auto split: if_splits option.splits)
    then have "z # s = [] @ (z # s) \<and> (\<forall>c\<in>set []. p c) \<and> k (z # s) = Some x"
      by simp
    then show ?thesis by blast
  qed
qed

lemma greedyPlus_shape:
  assumes "greedyPlus p s k = Some x"
  shows "\<exists>a b. s = a @ b \<and> a \<noteq> [] \<and> (\<forall>c\<in>set a. p c) \<and> k b = Some x"
proof -
  from assms obtain z s' where s: "s = z # s'" "p z" "greedyStar p s' k = Some x"
    by (cases s) (auto simp: greedyPlus_def split: if_splits)
  from greedyStar_shape [OF s(3)] obtain a b where "s' = a @ b" "\<forall>c\<in>set a. p c" "k b = Some x"
    by blast
  with s have "s = (z # a) @ b \<and> z # a \<noteq> [] \<and> (\<forall>c\<in>set (z # a). p c) \<and> k b = Some x"
    by simp
  then show ?thesis by blast
qed

lemma greedyPlus_longest:
  assumes "a \<noteq> []" "\<forall>c\<in>set a. p c" "b = [] \<or> \<not> p (hd b)" "k b = Some x"
  shows "greedyPlus p (a @ b) k = Some x"
proof -
  from assms(1) obtain z a' where a: "a = z # a'" by (cases a) auto
  have "dropWhile p (a' @ b) = b"
    using assms(2,3) a by (cases b) (auto simp: dropWhile_append)
  then have "greedyStar p (a' @ b) k = Some x"
    using assms(4) by (intro greedyStar_longest) simp
  then show ?thesis using a assms(2) by (simp add: greedyPlus_def)
qed

lemma length_lit [simp]: "length (lit s) = length s"
  by (simp add: lit_def)

lemma take_eq_prefix: "take (length l) s = l \<longleftrightarrow> (\<exists>rest. s = l @ rest)"
  by (metis append_eq_conv_conj append_take_drop_id)

lemma search_sound:
  "search r inp s = Some (s1, s2, c) \<Longrightarrow>
   (\<exists>pre. s = pre @ s1) \<and> rmatch r inp s1 Map.empty (\<lambda>s' c. Some (s', c)) = Some (s2, c)"
proof (induction s)
  case Nil
  then show ?case by (auto split: option.splits)
next
  case (Cons z s)
  show ?case
  proof (cases "rmatch r inp (z # s) Map.empty (\<lambda>s' c. Some (s', c))")
    case None
    with Cons.prems have "search r inp s = Some (s1, s2, c)" by simp
    from Cons.IH [OF this] obtain pre where "s = pre @ s1"
      and m: "rmatch r inp s1 Map.empty (\<lambda>s' c. Some (s', c)) = Some (s2, c)"
      by blast
    then have "z # s = (z # pre) @ s1" by simp
    with m show ?thesis by blast
  next
    case (Some y)
    with Cons.prems have "s1 = z # s" "y = (s2, c)"
      by (auto split: prod.splits)
    with Some have "z # s = [] @ s1 \<and> rmatch r inp s1 Map.empty (\<lambda>s' c. Some (s', c)) = Some (s2, c)"
      by simp
    then show ?thesis by blast
  qed
qed

lemma search_complete:
  "rmatch r inp s1 Map.empty (\<lambda>s' c. Some (s', c)) \<noteq> None \<Longrightarrow> search r inp (pre @ s1) \<noteq> None"
proof (induction pre)
  case Nil
  then show ?case by (cases s1) (auto split: option.splits)
next
  case (Cons z pre)
  then show ?case by (auto split: option.splits)
qed

lemma search_suffix: "search r inp s = Some (s1, s2, c) \<Longrightarrow> length s1 \<le> length s"
  using search_sound [of r inp s s1 s2 c] by auto

lemma replaceFrom_no_match: "search r inp s = None \<Longrightarrow> replaceFrom r t inp s = s"
  by (subst replaceFrom.simps) simp

lemma rmatch_Seq:
  "rmatch (Seq a b) inp s c k = rmatch a inp s c (\<lambda>s' c'. rmatch b inp s' c' k)"
  by simp

lemma rmatch_Lit_shape:
  "rmatch (Lit l) inp s c k = Some x \<Longrightarrow> \<exists>rest. s = l @ rest \<and> k rest c = Some x"
  by (auto simp: take_eq_prefix split: if_splits)

lemma rmatch_Lit_append: "rmatch (Lit l) inp (l @ rest) c k = k rest c"
  by simp

lemma rmatch_Lit_fail: "\<not> (\<exists>rest. s = l @ rest) \<Longrightarrow> rmatch (Lit l) inp s c k = None"
  by (simp add: take_eq_prefix)

lemma rmatch_Star_shape:
  "rmatch (Star p) inp s c k = Some x \<Longrightarrow>
   \<exists>a b. s = a @ b \<and> (\<forall>z\<in>set a. p z) \<and> k b c = Some x"
  by (simp add: greedyStar_shape)

lemma rmatch_Grp_Plus_shape:
  assumes "rmatch (Grp g (Plus p)) inp s c k = Some x"
  shows "\<exists>a b. s = a @ b \<and> a \<noteq> [] \<and> (\<forall>z\<in>set a. p z) \<and> k b (c(g \<mapsto> a)) = Some x"
proof -
  from assms have "greedyPlus p s (\<lambda>s'. k s' (c(g \<mapsto> take (length s - length s') s))) = Some x"
    by simp
  from greedyPlus_shape [OF this] obtain a b where
    ab: "s = a @ b" "a \<noteq> []" "\<forall>z\<in>set a. p z"
    "k b (c(g \<mapsto> take (length s - length b) s)) = Some x"
    by blast
  then have "k b (c(g \<mapsto> a)) = Some x" by simp
  with ab(1-3) show ?thesis by blast
qed

lemma rmatch_Grp_Plus_longest:
  assumes "a \<noteq> []" "\<forall>z\<in>set a. p z" "b = [] \<or> \<not> p (hd b)" "k b (c(g \<mapsto> a)) = Some x"
  shows "rmatch (Grp g (Plus p)) inp (a @ b) c k = Some x"
proof -
  have "greedyPlus p (a @ b) (\<lambda>s'. k s' (c(g \<mapsto> take (length (a @ b) - length s') (a @ b)))) = Some x"
    using assms by (intro greedyPlus_longest) simp_all
  then show ?thesis by simp
qed

subsection \<open>Bold spans\<close>

lemma bold_match_shape:
  assumes "rmatch boldRx inp s1 c0 (\<lambda>s' c. Some (s', c)) = Some (s2, c)"
  shows "\<exists>mid. s1 = lit ''**'' @ mid @ lit ''**'' @ s2 \<and> mid \<noteq> [] \<and> 0x2A \<notin> set mid
    \<and> c = c0(1 \<mapsto> mid)"
proof -
  from assms obtain r1 where 1: "s1 = lit ''**'' @ r1"
    and "rmatch (Seq (Grp 1 (Plus (\<lambda>c. c \<noteq> 0x2A))) (Lit (lit ''**''))) inp r1 c0
           (\<lambda>s' c. Some (s', c)) = Some (s2, c)"
    unfolding boldRx_def rmatch_Seq [of "Lit (lit ''**'')"]
    by (blast dest: rmatch_Lit_shape)
  then obtain a b where 2: "r1 = a @ b" "a \<noteq> []" "\<forall>z\<in>set a. z \<noteq> 0x2A"
    and "rmatch (Lit (lit ''**'')) inp b (c0(1 \<mapsto> a)) (\<lambda>s' c. Some (s', c)) = Some (s2, c)"
    unfolding rmatch_Seq by (blast dest: rmatch_Grp_Plus_shape)
  then obtain r3 where 3: "b = lit ''**'' @ r3" "Some (r3, c0(1 \<mapsto> a)) = Some (s2, c)"
    by (blast dest: rmatch_Lit_shape)
  then have "s1 = lit ''**'' @ a @ lit ''**'' @ s2" "c = c0(1 \<mapsto> a)"
    using 1 2(1) by simp_all
  with 2(2,3) show ?thesis by blast
qed

lemma bold_match_complete:
  assumes "mid \<noteq> []" "0x2A \<notin> set mid"
  shows "rmatch boldRx inp (lit ''**'' @ mid @ lit ''**'' @ post) c0 (\<lambda>s' c. Some (s', c)) =
    Some (post, c0(1 \<mapsto> mid))"
proof -
  have "rmatch (Seq (Grp 1 (Plus (\<lambda>c. c \<noteq> 0x2A))) (Lit (lit ''**''))) inp
      (mid @ (lit ''**'' @ post)) c0 (\<lambda>s' c. Some (s', c)) = Some (post, c0(1 \<mapsto> mid))"
    unfolding rmatch_Seq
  proof (rule rmatch_Grp_Plus_longest)
    show "mid \<noteq> []" by fact
    show "\<forall>z\<in>set mid. z \<noteq> 0x2A" using assms(2) by auto
    show "lit ''**'' @ post = [] \<or> \<not> hd (lit ''**'' @ post) \<noteq> 0x2A"
      by (simp add: lit_def)
    show "rmatch (Lit (lit ''**'')) inp (lit ''**'' @ post) (c0(1 \<mapsto> mid)) (\<lambda>s' c. Some (s', c)) =
      Some (post, c0(1 \<mapsto> mid))"
      by (rule rmatch_Lit_append)
  qed
  then show ?thesis
    unfolding boldRx_def rmatch_Seq [of "Lit (lit ''**'')"] rmatch_Lit_append by simp
qed

lemma hasBoldSpan_search: "hasBoldSpan s \<longleftrightarrow> search boldRx inp s \<noteq> None"
proof
  assume "hasBoldSpan s"
  then obtain pre mid post where s: "s = pre @ lit ''**'' @ mid @ lit ''**'' @ post"
    "mid \<noteq> []" "0x2A \<notin> set mid"
    unfolding hasBoldSpan_def by blast
  show "search boldRx inp s \<noteq> None"
    unfolding s(1) by (rule search_complete) (simp add: bold_match_complete [OF s(2,3)])
next
  assume "search boldRx inp s \<noteq> None"
  then obtain s1 s2 c where "search boldRx inp s = Some (s1, s2, c)"
    by auto
  from search_sound [OF this] obtain pre where "s = pre @ s1"
    and "rmatch boldRx inp s1 Map.empty (\<lambda>s' c. Some (s', c)) = Some (s2, c)"
    by blast
  with bold_match_shape [of inp s1 Map.empty s2 c] show "hasBoldSpan s"
    unfolding hasBoldSpan_def by blast
qed

subsection \<open>Link spans\<close>

lemma link_match_shape:
  assumes "rmatch linkRx inp s1 c0 (\<lambda>s' c. Some (s', c)) = Some (s2, c)"
  shows "\<exists>label target.
    s1 = lit ''['' @ label @ lit '']('' @ target @ lit '')'' @ s2
    \<and> label \<noteq> [] \<and> 0x5D \<notin> set label \<and> target \<noteq> [] \<and> 0x29 \<notin> set target
    \<and> c = c0(1 \<mapsto> label, 2 \<mapsto> target)"
proof -
  from assms obtain r1 where 1: "s1 = lit ''['' @ r1"
    and "rmatch (Seq (Grp 1 (Plus (\<lambda>c. c \<noteq> 0x5D)))
           (Seq (Lit (lit '']('')) (Seq (Grp 2 (Plus (\<lambda>c. c \<noteq> 0x29))) (Lit (lit '')'')))))
           inp r1 c0 (\<lambda>s' c. Some (s', c)) = Some (s2, c)"
    unfolding linkRx_def rmatch_Seq [of "Lit (lit ''['')"]
    by (blast dest: rmatch_Lit_shape)
  then obtain a b where 2: "r1 = a @ b" "a \<noteq> []" "\<forall>z\<in>set a. z \<noteq> 0x5D"
    and "rmatch (Seq (Lit (lit '']('')) (Seq (Grp 2 (Plus (\<lambda>c. c \<noteq> 0x29))) (Lit (lit '')''))))
           inp b (c0(1 \<mapsto> a)) (\<lambda>s' c. Some (s', c)) = Some (s2, c)"
    unfolding rmatch_Seq [of "Grp 1 (Plus (\<lambda>c. c \<noteq> 0x5D))"]
    by (blast dest: rmatch_Grp_Plus_shape)
  then obtain r3 where 3: "b = lit '']('' @ r3"
    and "rmatch (Seq (Grp 2 (Plus (\<lambda>c. c \<noteq> 0x29))) (Lit (lit '')'')))
           inp r3 (c0(1 \<mapsto> a)) (\<lambda>s' c. Some (s', c)) = Some (s2, c)"
    unfolding rmatch_Seq [of "Lit (lit '']('')"]
    by (blast dest: rmatch_Lit_shape)
  then obtain t u where 4: "r3 = t @ u" "t \<noteq> []" "\<forall>z\<in>set t. z \<noteq> 0x29"
    and "rmatch (Lit (lit '')'')) inp u (c0(1 \<mapsto> a, 2 \<mapsto> t)) (\<lambda>s' c. Some (s', c)) = Some (s2, c)"
    unfolding rmatch_Seq by (blast dest: rmatch_Grp_Plus_shape)
  then obtain r5 where 5: "u = lit '')'' @ r5" "Some (r5, c0(1 \<mapsto> a, 2 \<mapsto> t)) = Some (s2, c)"
    by (blast dest: rmatch_Lit_shape)
  then have "s1 = lit ''['' @ a @ lit '']('' @ t @ lit '')'' @ s2" "c = c0(1 \<mapsto> a, 2 \<mapsto> t)"
    using 1 2(1) 3 4(1) by simp_all
  with 2(2,3) 4(2,3) show ?thesis by blast
qed

lemma link_match_complete:
  assumes "label \<noteq> []" "0x5D \<notin> set label" "target \<noteq> []" "0x29 \<notin> set target"
  shows "rmatch linkRx inp (lit ''['' @ label @ lit '']('' @ target @ lit '')'' @ post) c0
      (\<lambda>s' c. Some (s', c)) =
    Some (post, c0(1 \<mapsto> label, 2 \<mapsto> target))"
proof -
  have t: "rmatch (Seq (Grp 2 (Plus (\<lambda>c. c \<noteq> 0x29))) (Lit (lit '')''))) inp
      (target @ (lit '')'' @ post)) (c0(1 \<mapsto> label)) (\<lambda>s' c. Some (s', c)) =
    Some (post, c0(1 \<mapsto> label, 2 \<mapsto> target))"
    unfolding rmatch_Seq
  proof (rule rmatch_Grp_Plus_longest)
    show "target \<noteq> []" by fact
    show "\<forall>z\<in>set target. z \<noteq> 0x29" using assms(4) by auto
    show "lit '')'' @ post = [] \<or> \<not> hd (lit '')'' @ post) \<noteq> 0x29"
      by (simp add: lit_def)
    show "rmatch (Lit (lit '')'')) inp (lit '')'' @ post) (c0(1 \<mapsto> label, 2 \<mapsto> target))
        (\<lambda>s' c. Some (s', c)) = Some (post, c0(1 \<mapsto> label, 2 \<mapsto> target))"
      by (rule rmatch_Lit_append)
  qed
  have "rmatch (Seq (Grp 1 (Plus (\<lambda>c. c \<noteq> 0x5D)))
           (Seq (Lit (lit '']('')) (Seq (Grp 2 (Plus (\<lambda>c. c \<noteq> 0x29))) (Lit (lit '')'')))))
      inp (label @ (lit '']('' @ target @ lit '')'' @ post)) c0 (\<lambda>s' c. Some (s', c)) =
    Some (post, c0(1 \<mapsto> label, 2 \<mapsto> target))"
    unfolding rmatch_Seq [of "Grp 1 (Plus (\<lambda>c. c \<noteq> 0x5D))"]
  proof (rule rmatch_Grp_Plus_longest)
    show "label \<noteq> []" by fact
    show "\<forall>z\<in>set label. z \<noteq> 0x5D" using assms(2) by auto
    show "lit '']('' @ target @ lit '')'' @ post = [] \<or>
        \<not> hd (lit '']('' @ target @ lit '')'' @ post) \<noteq> 0x5D"
      by (simp add: lit_def)
    show "rmatch (Seq (Lit (lit '']('')) (Seq (Grp 2 (Plus (\<lambda>c. c \<noteq> 0x29))) (Lit (lit '')''))))
        inp (lit '']('' @ target @ lit '')'' @ post) (c0(1 \<mapsto> label)) (\<lambda>s' c. Some (s', c)) =
      Some (post, c0(1 \<mapsto> label, 2 \<mapsto> target))"
      unfolding rmatch_Seq [of "Lit (lit '']('')"] rmatch_Lit_append
      using t by simp
  qed
  then show ?thesis
    unfolding linkRx_def rmatch_Seq [of "Lit (lit ''['')"] rmatch_Lit_append by simp
qed

lemma hasLinkSpan_search: "hasLinkSpan s \<longleftrightarrow> search linkRx inp s \<noteq> None"
proof
  assume "hasLinkSpan s"
  then obtain pre label target post where
    s: "s = pre @ lit ''['' @ label @ lit '']('' @ target @ lit '')'' @ post"
    "label \<noteq> []" "0x5D \<notin> set label" "target \<noteq> []" "0x29 \<notin> set target"
    unfolding hasLinkSpan_def by blast
  show "search linkRx inp s \<noteq> None"
    unfolding s(1) by (rule search_complete) (simp add: link_match_complete [OF s(2-5)])
next
  assume "search linkRx inp s \<noteq> None"
  then obtain s1 s2 c where "search linkRx inp s = Some (s1, s2, c)"
    by auto
  from search_sound [OF this] obtain pre where "s = pre @ s1"
    and "rmatch linkRx inp s1 Map.empty (\<lambda>s' c. Some (s', c)) = Some (s2, c)"
    by blast
  with link_match_shape [of inp s1 Map.empty s2 c] show "hasLinkSpan s"
    unfolding hasLinkSpan_def by blast
qed

text \<open>
  C9: a string with no bold span and no link span is returned unchanged; so applying
  the transform to it again changes nothing either.
\<close>

theorem transform_identity:
  assumes "\<not> hasBoldSpan s" "\<not> hasLinkSpan s"
  shows "processInlineMarkup s = s \<and> processInlineMarkup (processInlineMarkup s) = s"
proof -
  have "search boldRx s s = None"
    using assms(1) hasBoldSpan_search [of s s] by blast
  then have b: "strReplaceAll s boldRx boldTemplate = s"
    unfolding strReplaceAll_def by (rule replaceFrom_no_match)
  have "search linkRx s s = None"
    using assms(2) hasLinkSpan_search [of s s] by blast
  then have l: "strReplaceAll s linkRx linkTemplate = s"
    unfolding strReplaceAll_def by (rule replaceFrom_no_match)
  have "processInlineMarkup s = s"
    by (simp add: processInlineMarkup_def b l)
  then show ?thesis by simp
qed

theorem transform_identity_witness:
  "processInlineMarkup (lit ''2 ** 3 * [x] (y) []() ** and (a)[b]'') =
     lit ''2 ** 3 * [x] (y) []() ** and (a)[b]''
   \<and> processInlineMarkup (processInlineMarkup (lit ''2 ** 3 * [x] (y) []() ** and (a)[b]'')) =
     lit ''2 ** 3 * [x] (y) []() ** and (a)[b]''"
proof -
  let ?s = "lit ''2 ** 3 * [x] (y) []() ** and (a)[b]''"
  have "search boldRx ?s ?s = None"
    by code_simp
  then have 1: "\<not> hasBoldSpan ?s"
    by (simp add: hasBoldSpan_search [of ?s ?s])
  have "search linkRx ?s ?s = None"
    by code_simp
  then have 2: "\<not> hasLinkSpan ?s"
    by (simp add: hasLinkSpan_search [of ?s ?s])
  from transform_identity [OF 1 2] show ?thesis .
qed

subsection \<open>Text that no match touches\<close>

lemma rmatch_unanchored:
  "unanchored r \<Longrightarrow> rmatch r inp s c k = rmatch r inp' s c k"
proof (induction r arbitrary: s c k)
  case (Seq a b)
  then have "\<And>s' c'. rmatch b inp s' c' k = rmatch b inp' s' c' k"
    by simp
  then show ?case
    using Seq.IH(1) [of s c "\<lambda>s' c'. rmatch b inp' s' c' k"] Seq.prems by simp
qed simp_all

lemma search_unanchored:
  "unanchored r \<Longrightarrow> search r inp s = search r inp' s"
proof (induction s)
  case Nil
  then show ?case
    using rmatch_unanchored [of r inp "[]" Map.empty "\<lambda>s' c. Some (s', c)" inp'] by simp
next
  case (Cons z s)
  have 1: "search r inp s = search r inp' s"
    using Cons by simp
  have 2: "rmatch r inp (z # s) Map.empty (\<lambda>s' c. Some (s', c)) =
    rmatch r inp' (z # s) Map.empty (\<lambda>s' c. Some (s', c))"
    using Cons.prems by (rule rmatch_unanchored)
  show ?case
    by (simp only: search.simps 1 2)
qed

lemma replaceFrom_unanchored:
  assumes "unanchored r"
  shows "replaceFrom r t inp s = replaceFrom r t inp' s"
proof (induction s rule: length_induct)
  case (1 s)
  have e: "search r inp' s = search r inp s"
    using search_unanchored [OF assms] by simp
  show ?case
  proof (cases "search r inp s")
    case None
    then show ?thesis
      using e by (simp add: replaceFrom_no_match)
  next
    case (Some y)
    then obtain s1 s2 c where y: "search r inp s = Some (s1, s2, c)"
      by (cases y) auto
    have l: "length s1 \<le> length s"
      using y by (rule search_suffix)
    have a: "length s2 < length s1 \<Longrightarrow> replaceFrom r t inp s2 = replaceFrom r t inp' s2"
      using 1 l by simp
    have b: "\<And>x xs. s1 = x # xs \<Longrightarrow> replaceFrom r t inp xs = replaceFrom r t inp' xs"
      using 1 l by simp
    show ?thesis
      by (subst replaceFrom.simps, subst (2) replaceFrom.simps)
        (auto simp: y e a b split: list.splits)
  qed
qed

lemma search_skip:
  assumes "\<And>x1 x2. x = x1 @ x2 \<Longrightarrow> x2 \<noteq> [] \<Longrightarrow>
    rmatch r inp (x2 @ post) Map.empty (\<lambda>s' c. Some (s', c)) = None"
  shows "search r inp (x @ post) = search r inp post"
  using assms
proof (induction x)
  case Nil
  show ?case by simp
next
  case (Cons z x)
  have "rmatch r inp ((z # x) @ post) Map.empty (\<lambda>s' c. Some (s', c)) = None"
    using Cons.prems [of "[]" "z # x"] by simp
  moreover have "search r inp (x @ post) = search r inp post"
  proof (rule Cons.IH)
    fix x1 x2
    assume "x = x1 @ x2" "x2 \<noteq> []"
    then show "rmatch r inp (x2 @ post) Map.empty (\<lambda>s' c. Some (s', c)) = None"
      using Cons.prems [of "z # x1" x2] by simp
  qed
  ultimately show ?case by simp
qed

lemma replaceFrom_skip:
  assumes "\<And>x1 x2. x = x1 @ x2 \<Longrightarrow> x2 \<noteq> [] \<Longrightarrow>
    rmatch r inp (x2 @ post) Map.empty (\<lambda>s' c. Some (s', c)) = None"
  shows "replaceFrom r t inp (x @ post) = x @ replaceFrom r t inp post"
proof -
  have e: "search r inp (x @ post) = search r inp post"
    using assms by (rule search_skip)
  show ?thesis
  proof (cases "search r inp post")
    case None
    then show ?thesis
      using e by (simp add: replaceFrom_no_match)
  next
    case (Some y)
    then obtain s1 s2 c where y: "search r inp post = Some (s1, s2, c)"
      by (cases y) auto
    have l: "length s1 \<le> length post"
      using y by (rule search_suffix)
    show ?thesis
      by (subst replaceFrom.simps, subst (2) replaceFrom.simps)
        (use l in \<open>simp add: y e\<close>)
  qed
qed

subsection \<open>Where the link pattern does not match\<close>

lemma unanchored_linkRx: "unanchored linkRx"
  by (simp add: linkRx_def)

lemma takeWhile_until: "x \<notin> set a \<Longrightarrow> takeWhile (\<lambda>z. z \<noteq> x) (a @ x # r) = a"
  by (induction a) auto

lemma split_unique:
  assumes "a @ x # r1 = b @ x # r2" "x \<notin> set a" "x \<notin> set b"
  shows "a = b \<and> r1 = r2"
proof -
  have "takeWhile (\<lambda>z. z \<noteq> x) (a @ x # r1) = a"
    using assms(2) by (rule takeWhile_until)
  moreover have "takeWhile (\<lambda>z. z \<noteq> x) (b @ x # r2) = b"
    using assms(3) by (rule takeWhile_until)
  ultimately have "a = b" using assms(1) by simp
  with assms(1) show ?thesis by simp
qed

lemma link_no_match_other:
  assumes "s = [] \<or> hd s \<noteq> 0x5B"
  shows "rmatch linkRx inp s c0 (\<lambda>s' c. Some (s', c)) = None"
proof (rule ccontr)
  assume "rmatch linkRx inp s c0 (\<lambda>s' c. Some (s', c)) \<noteq> None"
  then obtain s2 c where "rmatch linkRx inp s c0 (\<lambda>s' c. Some (s', c)) = Some (s2, c)"
    by auto
  from link_match_shape [OF this] obtain label target where
    "s = lit ''['' @ label @ lit '']('' @ target @ lit '')'' @ s2"
    by blast
  then have "s \<noteq> [] \<and> hd s = 0x5B"
    by (simp add: lit_def)
  with assms show False by simp
qed

lemma link_no_match_empty_label:
  "rmatch linkRx inp (lit ''[]'' @ rest) c0 (\<lambda>s' c. Some (s', c)) = None"
proof (rule ccontr)
  assume "rmatch linkRx inp (lit ''[]'' @ rest) c0 (\<lambda>s' c. Some (s', c)) \<noteq> None"
  then obtain s2 c where
    "rmatch linkRx inp (lit ''[]'' @ rest) c0 (\<lambda>s' c. Some (s', c)) = Some (s2, c)"
    by auto
  from link_match_shape [OF this] obtain label target where
    e: "lit ''[]'' @ rest = lit ''['' @ label @ lit '']('' @ target @ lit '')'' @ s2"
    and l: "label \<noteq> []" "0x5D \<notin> set label"
    by blast
  from l(1) obtain z zs where "label = z # zs" by (cases label) auto
  with e l(2) show False by (simp add: lit_def)
qed

lemma link_no_match_empty_target:
  assumes "0x5D \<notin> set t"
  shows "rmatch linkRx inp (lit ''['' @ t @ lit '']()'' @ rest) c0 (\<lambda>s' c. Some (s', c)) = None"
proof (rule ccontr)
  assume "rmatch linkRx inp (lit ''['' @ t @ lit '']()'' @ rest) c0 (\<lambda>s' c. Some (s', c)) \<noteq> None"
  then obtain s2 c where
    "rmatch linkRx inp (lit ''['' @ t @ lit '']()'' @ rest) c0 (\<lambda>s' c. Some (s', c)) = Some (s2, c)"
    by auto
  from link_match_shape [OF this] obtain label target where
    e: "lit ''['' @ t @ lit '']()'' @ rest = lit ''['' @ label @ lit '']('' @ target @ lit '')'' @ s2"
    and l: "0x5D \<notin> set label" "target \<noteq> []" "0x29 \<notin> set target"
    by blast
  from e have "t @ 0x5D # (lit ''()'' @ rest) = label @ 0x5D # (lit ''('' @ target @ lit '')'' @ s2)"
    by (simp add: lit_def)
  from split_unique [OF this assms l(1)]
  have "lit ''()'' @ rest = lit ''('' @ target @ lit '')'' @ s2"
    by simp
  moreover from l(2) obtain z zs where "target = z # zs" by (cases target) auto
  ultimately show False using l(3) by (simp add: lit_def)
qed

lemma replaceLinks_skip_other:
  assumes "0x5B \<notin> set x"
  shows "replaceFrom linkRx t inp (x @ post) = x @ replaceFrom linkRx t inp post"
proof (rule replaceFrom_skip)
  fix x1 x2
  assume "x = x1 @ x2" "x2 \<noteq> []"
  with assms have "hd (x2 @ post) \<noteq> 0x5B"
    by (cases x2) auto
  then show "rmatch linkRx inp (x2 @ post) Map.empty (\<lambda>s' c. Some (s', c)) = None"
    by (intro link_no_match_other) simp
qed

lemma replaceLinks_skip_char:
  assumes "rmatch linkRx inp (z # post) Map.empty (\<lambda>s' c. Some (s', c)) = None"
  shows "replaceFrom linkRx t inp (z # post) = z # replaceFrom linkRx t inp post"
proof -
  have "replaceFrom linkRx t inp ([z] @ post) = [z] @ replaceFrom linkRx t inp post"
  proof (rule replaceFrom_skip)
    fix x1 x2
    assume "[z] = x1 @ x2" "x2 \<noteq> []"
    then have "x2 = [z]"
      by (cases x1) auto
    with assms show "rmatch linkRx inp (x2 @ post) Map.empty (\<lambda>s' c. Some (s', c)) = None"
      by simp
  qed
  then show ?thesis by simp
qed

lemma transform_no_bold:
  assumes "\<not> hasBoldSpan s"
  shows "processInlineMarkup s = strReplaceAll s linkRx linkTemplate"
proof -
  have "search boldRx s s = None"
    using assms hasBoldSpan_search [of s s] by blast
  then have "strReplaceAll s boldRx boldTemplate = s"
    unfolding strReplaceAll_def by (rule replaceFrom_no_match)
  then show ?thesis by (simp add: processInlineMarkup_def)
qed

subsection \<open>Backtracking of the greedy quantifiers\<close>

lemma greedyStar_stop: "b = [] \<or> \<not> p (hd b) \<Longrightarrow> greedyStar p b k = k b"
  by (cases b) auto

lemma greedyStar_backoff:
  assumes "\<forall>z\<in>set a. p z" "p y" "b = [] \<or> \<not> p (hd b)" "k b = None" "k (y # b) = Some x"
  shows "greedyStar p (a @ y # b) k = Some x"
  using assms(1)
proof (induction a)
  case Nil
  have "greedyStar p b k = k b"
    using assms(3) by (rule greedyStar_stop)
  then show ?case
    using assms(2,4,5) by simp
next
  case (Cons z a)
  then show ?case by simp
qed

lemma rmatch_Grp_Plus_backoff:
  assumes "a \<noteq> []" "\<forall>z\<in>set a. p z" "p y" "b = [] \<or> \<not> p (hd b)"
    and "k b (c(g \<mapsto> a @ [y])) = None" and "k (y # b) (c(g \<mapsto> a)) = Some x"
  shows "rmatch (Grp g (Plus p)) inp (a @ y # b) c k = Some x"
proof -
  from assms(1) obtain z a' where a: "a = z # a'" by (cases a) auto
  let ?s = "a @ y # b"
  let ?kk = "\<lambda>s'. k s' (c(g \<mapsto> take (length ?s - length s') ?s))"
  have "greedyStar p (a' @ y # b) ?kk = Some x"
  proof (rule greedyStar_backoff)
    show "\<forall>z\<in>set a'. p z" using assms(2) a by simp
    show "p y" by fact
    show "b = [] \<or> \<not> p (hd b)" by fact
    have "take (length ?s - length b) ?s = a @ [y]" by simp
    then show "?kk b = None" using assms(5) by simp
    have "take (length ?s - length (y # b)) ?s = a" by simp
    then show "?kk (y # b) = Some x" using assms(6) by simp
  qed
  then show ?thesis
    using a assms(2) by (simp add: greedyPlus_def)
qed

lemma rmatch_Grp_Plus_fail:
  "s = [] \<or> \<not> p (hd s) \<Longrightarrow> rmatch (Grp g (Plus p)) inp s c k = None"
  by (cases s) (auto simp: greedyPlus_def)

lemma captured_ne: "u \<noteq> [] \<Longrightarrow> captured u \<noteq> []"
  by (simp add: captured_def)

lemma set_captured: "u \<noteq> [] \<Longrightarrow> set (captured u) \<subseteq> set u"
  using set_dropWhileD [of _ isWhiteSpace u] by (auto simp: captured_def)

lemma trim_captured: "u \<noteq> [] \<Longrightarrow> trim (captured u) = trim u"
proof (cases "dropWhile isWhiteSpace u = []")
  case True
  assume "u \<noteq> []"
  with True have "isWhiteSpace (last u)" "\<forall>c\<in>set u. isWhiteSpace c"
    by simp_all
  then have "trim [last u] = []" "trim u = []"
    by (simp_all add: trim_eq_Nil)
  with True show ?thesis by (simp add: captured_def)
next
  case False
  have "dropWhile isWhiteSpace (dropWhile isWhiteSpace u) = dropWhile isWhiteSpace u"
    by (metis dropWhile_idem)
  then have "trim (dropWhile isWhiteSpace u) = trim u"
    by (simp only: trim_def)
  with False show ?thesis by (simp only: captured_def if_False)
qed

lemma greedyStar_space_group:
  assumes "u \<noteq> []" "b \<noteq> []" "\<not> isWhiteSpace (hd b)" "k b = None"
    and "k (captured u @ b) = Some x"
  shows "greedyStar isWhiteSpace (u @ b) k = Some x"
proof (cases "dropWhile isWhiteSpace u = []")
  case True
  from assms(1) obtain a y where u: "u = a @ [y]"
    by (cases u rule: rev_cases) auto
  from True have w: "\<forall>c\<in>set a. isWhiteSpace c" "isWhiteSpace y"
    unfolding u by simp_all
  have c: "captured u = [y]"
    using True unfolding captured_def u by simp
  have "greedyStar isWhiteSpace (a @ y # b) k = Some x"
  proof (rule greedyStar_backoff)
    show "\<forall>z\<in>set a. isWhiteSpace z" by (rule w(1))
    show "isWhiteSpace y" by (rule w(2))
    show "b = [] \<or> \<not> isWhiteSpace (hd b)" using assms(3) by simp
    show "k b = None" by fact
    show "k (y # b) = Some x" using assms(5) unfolding c by simp
  qed
  then show ?thesis unfolding u by simp
next
  case False
  then have "dropWhile isWhiteSpace (u @ b) = dropWhile isWhiteSpace u @ b"
    by (induction u) auto
  moreover have "captured u = dropWhile isWhiteSpace u"
    using False by (simp only: captured_def if_False)
  ultimately have "k (dropWhile isWhiteSpace (u @ b)) = Some x"
    using assms(5) by simp
  then show ?thesis by (rule greedyStar_longest)
qed

subsection \<open>The image pattern\<close>

lemma imageRx_tail:
  "imageRx =
     Seq (Lit (lit ''[image:''))
    (Seq (Star isWhiteSpace) (Seq (Grp 1 (Plus (\<lambda>c. c \<noteq> 0x7C))) imageTail))"
  by (simp add: imageRx_def)

lemma bracket_facts:
  "\<not> isWhiteSpace 0x5D" "\<not> isLineTerminator 0x5D" "\<not> isWhiteSpace 0x7C"
  by (simp_all add: isWhiteSpace_def isLineTerminator_def)

lemma imageTail_end: "rmatch imageTail inp [] c k = None"
  by (simp add: lit_def)

lemma imageTail_close: "rmatch imageTail inp (lit '']'') c k = k [] c"
  by (simp add: lit_def bracket_facts)

lemma imageTail_alt:
  assumes "a \<noteq> []" "\<forall>z\<in>set a. \<not> isLineTerminator z" "k [] (c(2 \<mapsto> captured a)) = Some x"
  shows "rmatch imageTail inp (lit ''|'' @ a @ lit '']'') c k = Some x"
proof -
  let ?k5 = "\<lambda>s' c'. rmatch (Lit (lit '']'')) inp s' c' k"
  let ?kg = "\<lambda>s'. rmatch (Grp 2 (Plus (\<lambda>c. \<not> isLineTerminator c))) inp s' c ?k5"
  have g: "?kg (captured a @ lit '']'') = Some x"
  proof -
    have "rmatch (Grp 2 (Plus (\<lambda>c. \<not> isLineTerminator c))) inp (captured a @ 0x5D # []) c ?k5 = Some x"
    proof (rule rmatch_Grp_Plus_backoff)
      show "captured a \<noteq> []" using assms(1) by (rule captured_ne)
      show "\<forall>z\<in>set (captured a). \<not> isLineTerminator z"
        using assms(2) set_captured [OF assms(1)] by blast
      show "\<not> isLineTerminator 0x5D" by (rule bracket_facts)
      show "([] :: jsstring) = [] \<or> \<not> \<not> isLineTerminator (hd ([] :: jsstring))" by simp
      show "?k5 [] (c(2 \<mapsto> captured a @ [0x5D])) = None" by (simp add: lit_def)
      show "?k5 [0x5D] (c(2 \<mapsto> captured a)) = Some x" using assms(3) by (simp add: lit_def)
    qed
    then show ?thesis by (simp add: lit_def)
  qed
  have "greedyStar isWhiteSpace (a @ lit '']'') ?kg = Some x"
  proof (rule greedyStar_space_group)
    show "a \<noteq> []" by fact
    show "lit '']'' \<noteq> []" by (simp add: lit_def)
    show "\<not> isWhiteSpace (hd (lit '']''))" by (simp add: lit_def bracket_facts)
    show "?kg (lit '']'') = None" by (simp add: lit_def greedyPlus_def bracket_facts)
    show "?kg (captured a @ lit '']'') = Some x" by (rule g)
  qed
  then show ?thesis
    by (simp add: lit_def bracket_facts)
qed

lemma image_group1_close:
  assumes "v \<noteq> []" "0x7C \<notin> set v" "k [] (c(1 \<mapsto> v)) = Some x"
  shows "rmatch (Seq (Grp 1 (Plus (\<lambda>c. c \<noteq> 0x7C))) imageTail) inp (v @ lit '']'') c k = Some x"
proof -
  let ?kt = "\<lambda>s' c'. rmatch imageTail inp s' c' k"
  have "rmatch (Grp 1 (Plus (\<lambda>c. c \<noteq> 0x7C))) inp (v @ 0x5D # []) c ?kt = Some x"
  proof (rule rmatch_Grp_Plus_backoff)
    show "v \<noteq> []" by fact
    show "\<forall>z\<in>set v. z \<noteq> 0x7C" using assms(2) by auto
    show "(0x5D :: cu) \<noteq> 0x7C" by simp
    show "([] :: jsstring) = [] \<or> \<not> hd ([] :: jsstring) \<noteq> 0x7C" by simp
    show "?kt [] (c(1 \<mapsto> v @ [0x5D])) = None" by (rule imageTail_end)
    show "?kt [0x5D] (c(1 \<mapsto> v)) = Some x"
      using imageTail_close [of inp "c(1 \<mapsto> v)" k] assms(3) by (simp add: lit_def)
  qed
  then show ?thesis
    unfolding rmatch_Seq [of "Grp 1 (Plus (\<lambda>c. c \<noteq> 0x7C))"] by (simp add: lit_def)
qed

lemma image_group1_alt:
  assumes "v \<noteq> []" "0x7C \<notin> set v" "a \<noteq> []" "\<forall>z\<in>set a. \<not> isLineTerminator z"
    and "k [] (c(1 \<mapsto> v, 2 \<mapsto> captured a)) = Some x"
  shows "rmatch (Seq (Grp 1 (Plus (\<lambda>c. c \<noteq> 0x7C))) imageTail) inp
    (v @ lit ''|'' @ a @ lit '']'') c k = Some x"
  unfolding rmatch_Seq [of "Grp 1 (Plus (\<lambda>c. c \<noteq> 0x7C))"]
proof (rule rmatch_Grp_Plus_longest)
  show "v \<noteq> []" by fact
  show "\<forall>z\<in>set v. z \<noteq> 0x7C" using assms(2) by auto
  show "lit ''|'' @ a @ lit '']'' = [] \<or> \<not> hd (lit ''|'' @ a @ lit '']'') \<noteq> 0x7C"
    by (simp add: lit_def)
  show "rmatch imageTail inp (lit ''|'' @ a @ lit '']'') (c(1 \<mapsto> v)) k = Some x"
    using assms(3,4,5) by (rule imageTail_alt)
qed

lemma image_group1_fail:
  "rmatch (Seq (Grp 1 (Plus (\<lambda>c. c \<noteq> 0x7C))) imageTail) inp (lit '']'') c k = None"
  "rmatch (Seq (Grp 1 (Plus (\<lambda>c. c \<noteq> 0x7C))) imageTail) inp (lit ''|'' @ rest) c k = None"
  by (simp_all add: lit_def greedyPlus_def)

lemma imageRx_close:
  assumes "u \<noteq> []" "0x7C \<notin> set u"
  shows "rmatch imageRx inp (lit ''[image:'' @ u @ lit '']'') c (\<lambda>s' c. Some (s', c)) =
    Some ([], c(1 \<mapsto> captured u))"
proof -
  let ?k = "\<lambda>s'. rmatch (Seq (Grp 1 (Plus (\<lambda>c. c \<noteq> 0x7C))) imageTail) inp s' c (\<lambda>s' c. Some (s', c))"
  have "greedyStar isWhiteSpace (u @ lit '']'') ?k = Some ([], c(1 \<mapsto> captured u))"
  proof (rule greedyStar_space_group)
    show "u \<noteq> []" by fact
    show "lit '']'' \<noteq> []" by (simp add: lit_def)
    show "\<not> isWhiteSpace (hd (lit '']''))" by (simp add: lit_def bracket_facts)
    show "?k (lit '']'') = None" by (rule image_group1_fail)
    show "?k (captured u @ lit '']'') = Some ([], c(1 \<mapsto> captured u))"
    proof (rule image_group1_close)
      show "captured u \<noteq> []" using assms(1) by (rule captured_ne)
      show "0x7C \<notin> set (captured u)" using assms(2) set_captured [OF assms(1)] by blast
    qed simp
  qed
  then show ?thesis
    unfolding imageRx_tail rmatch_Seq [of "Lit (lit ''[image:'')"] rmatch_Lit_append
      rmatch_Seq [of "Star isWhiteSpace"]
    by simp
qed

lemma imageRx_alt:
  assumes "u \<noteq> []" "0x7C \<notin> set u" "a \<noteq> []" "\<forall>z\<in>set a. \<not> isLineTerminator z"
  shows "rmatch imageRx inp (lit ''[image:'' @ u @ lit ''|'' @ a @ lit '']'') c (\<lambda>s' c. Some (s', c)) =
    Some ([], c(1 \<mapsto> captured u, 2 \<mapsto> captured a))"
proof -
  let ?k = "\<lambda>s'. rmatch (Seq (Grp 1 (Plus (\<lambda>c. c \<noteq> 0x7C))) imageTail) inp s' c (\<lambda>s' c. Some (s', c))"
  have "greedyStar isWhiteSpace (u @ (lit ''|'' @ a @ lit '']'')) ?k =
    Some ([], c(1 \<mapsto> captured u, 2 \<mapsto> captured a))"
  proof (rule greedyStar_space_group)
    show "u \<noteq> []" by fact
    show "lit ''|'' @ a @ lit '']'' \<noteq> []" by (simp add: lit_def)
    show "\<not> isWhiteSpace (hd (lit ''|'' @ a @ lit '']''))" by (simp add: lit_def bracket_facts)
    show "?k (lit ''|'' @ a @ lit '']'') = None" by (rule image_group1_fail)
    show "?k (captured u @ lit ''|'' @ a @ lit '']'') =
      Some ([], c(1 \<mapsto> captured u, 2 \<mapsto> captured a))"
    proof (rule image_group1_alt)
      show "captured u \<noteq> []" using assms(1) by (rule captured_ne)
      show "0x7C \<notin> set (captured u)" using assms(2) set_captured [OF assms(1)] by blast
      show "a \<noteq> []" by fact
      show "\<forall>z\<in>set a. \<not> isLineTerminator z" by fact
    qed simp
  qed
  then show ?thesis
    unfolding imageRx_tail rmatch_Seq [of "Lit (lit ''[image:'')"] rmatch_Lit_append
      rmatch_Seq [of "Star isWhiteSpace"]
    by simp
qed

lemma search_here:
  "rmatch r inp s Map.empty (\<lambda>s' c. Some (s', c)) = Some (s', c) \<Longrightarrow>
   search r inp s = Some (s, s', c)"
  by (cases s) simp_all

lemma strMatch_image_close:
  assumes "u \<noteq> []" "0x7C \<notin> set u"
  shows "\<exists>m. strMatch (lit ''[image:'' @ u @ lit '']'') imageRx = Some m
    \<and> m 1 = Some (captured u) \<and> m 2 = None"
  using search_here [OF imageRx_close [OF assms, of "lit ''[image:'' @ u @ lit '']''" Map.empty]]
  by (simp add: strMatch_def)

lemma strMatch_image_alt:
  assumes "u \<noteq> []" "0x7C \<notin> set u" "a \<noteq> []" "\<forall>z\<in>set a. \<not> isLineTerminator z"
  shows "\<exists>m. strMatch (lit ''[image:'' @ u @ lit ''|'' @ a @ lit '']'') imageRx = Some m
    \<and> m 1 = Some (captured u) \<and> m 2 = Some (captured a)"
  using search_here [OF imageRx_alt [OF assms, of "lit ''[image:'' @ u @ lit ''|'' @ a @ lit '']''" Map.empty]]
  by (simp add: strMatch_def)

subsection \<open>The image branch of the loop body\<close>

lemma step_image_none:
  assumes "\<not> inMetadata st" "startsWith (trim l) (lit ''[image:'')"
    "strMatch (trim l) imageRx = None"
  shows "step i l st = Inr (endList st)"
  using step_image [OF assms(1,2), of i] assms(3) by simp

lemma step_image_some:
  assumes "\<not> inMetadata st" "startsWith (trim l) (lit ''[image:'')"
    "strMatch (trim l) imageRx = Some m" "m 1 = Some m1"
  shows "step i l st =
    Inr (pushSection
      (imageSection (trim m1) (case m 2 of None \<Rightarrow> [] | Some m2 \<Rightarrow> trim m2)) (endList st))"
  using step_image [OF assms(1,2), of i] assms(3,4) by (simp split: option.splits)

lemma startsWith_image: "startsWith (lit ''[image:'' @ rest) (lit ''[image:'')"
  by (simp add: startsWith_def)

subsection \<open>The sections of a document, part by part\<close>

lemma step_prefix:
  assumes "\<not> inMetadata st" "0 < i"
  shows "step i l (st\<lparr>result := \<lparr>title = T, description = D, sections = xs @ sections (result st)\<rparr>\<rparr>) =
    (case step i l st of
       Inl e \<Rightarrow> Inl e
     | Inr st' \<Rightarrow>
         Inr (st'\<lparr>result := \<lparr>title = T, description = D, sections = xs @ sections (result st')\<rparr>\<rparr>))"
  using assms
  by (simp add: step_def Let_def endList_def pushSection_def split: option.splits)

lemma scan_prefix:
  assumes "\<not> inMetadata st" "0 < i"
  shows "scan i ls (st\<lparr>result := \<lparr>title = T, description = D, sections = xs @ sections (result st)\<rparr>\<rparr>) =
    (case scan i ls st of
       Inl e \<Rightarrow> Inl e
     | Inr st' \<Rightarrow>
         Inr (st'\<lparr>result := \<lparr>title = T, description = D, sections = xs @ sections (result st')\<rparr>\<rparr>))"
  using assms
proof (induction ls arbitrary: i st)
  case Nil
  show ?case by simp
next
  case (Cons l ls)
  obtain st1 where s: "step i l st = Inr st1"
    using step_total by blast
  have o: "\<not> inMetadata st1"
    using step_stays_outside [OF Cons.prems s] .
  show ?case
    using Cons.IH [OF o, of "Suc i"] step_prefix [OF Cons.prems, where l = l and T = T and D = D and xs = xs] s
    by simp
qed

lemma scan_from_init:
  assumes "\<not> inMetadata st" "currentList st = None" "0 < i"
  shows "\<exists>s'. scan i ls initState = Inr s' \<and>
    scan i ls st =
      Inr (s'\<lparr>result := \<lparr>title = title (result st), description = description (result st),
                          sections = sections (result st) @ sections (result s')\<rparr>\<rparr>)"
proof -
  obtain s' where s: "scan i ls initState = Inr s'"
    using scan_total by blast
  have e: "initState\<lparr>result := \<lparr>title = title (result st), description = description (result st),
      sections = sections (result st) @ sections (result initState)\<rparr>\<rparr> = st"
    using assms(1,2) by (simp add: initState_def)
  have "\<not> inMetadata initState"
    by (simp add: initState_def)
  from scan_prefix [OF this assms(3), where ls = ls and T = "title (result st)"
      and D = "description (result st)" and xs = "sections (result st)"] s
  show ?thesis
    unfolding e by simp
qed

lemma result_endList_prefix:
  "result (endList (s\<lparr>result := \<lparr>title = T, description = D, sections = xs @ sections (result s)\<rparr>\<rparr>)) =
   \<lparr>title = T, description = D, sections = xs @ sections (result (endList s))\<rparr>"
  by (simp add: endList_def pushSection_def split: option.splits)

lemma scan_flush:
  assumes "\<not> inMetadata st"
    and "currentList st = None \<or> post = [] \<or> \<not> startsWith (trim (hd post)) (lit ''-'')"
  shows "\<exists>a b. scan i post st = Inr a \<and> scan i post (endList st) = Inr b
    \<and> result (endList a) = result (endList b)"
proof (cases "currentList st = None")
  case True
  obtain a where "scan i post st = Inr a"
    using scan_total by blast
  then show ?thesis
    using True by (simp add: endList_None)
next
  case False
  show ?thesis
  proof (cases post)
    case Nil
    then show ?thesis by (simp add: endList_idem)
  next
    case (Cons b post')
    with assms(2) False have "\<not> startsWith (trim b) (lit ''-'')"
      by simp
    with assms(1) have "step i b st = step i b (endList st)"
      by (rule step_after_flush)
    then have e: "scan i post st = scan i post (endList st)"
      by (simp add: Cons)
    obtain a where "scan i post st = Inr a"
      using scan_total by blast
    with e have "scan i post st = Inr a \<and> scan i post (endList st) = Inr a
      \<and> result (endList a) = result (endList a)"
      by simp
    then show ?thesis by blast
  qed
qed

lemma title_endList: "title (result (endList st)) = title (result st)"
  "description (result (endList st)) = description (result st)"
  by (simp_all add: endList_def pushSection_def split: option.splits)

lemma currentList_endList: "currentList (endList st) = None"
  by (simp add: endList_def split: option.splits)

lemma document_tail:
  assumes "splitStr input 0x0A = pre @ post" and "loop pre 0 initState = Inr st"
    and "\<not> inMetadata st" and "pre \<noteq> []"
    and "currentList st = None \<or> post = [] \<or> \<not> startsWith (trim (hd post)) (lit ''-'')"
  shows "\<exists>stp. loop (pre @ post) (length pre) initState = Inr stp \<and>
    parsePmap input =
      Inr \<lparr>title = title (result st), description = description (result st),
           sections = sections (result (endList st)) @ sections (result (endList stp))\<rparr>"
proof -
  from scan_flush [OF assms(3,5), of "length pre"] obtain a b where
    a: "scan (length pre) post st = Inr a" and b: "scan (length pre) post (endList st) = Inr b"
    and ab: "result (endList a) = result (endList b)"
    by blast
  have "0 < length pre"
    using assms(4) by simp
  from scan_from_init [of "endList st", OF _ currentList_endList this, of post] assms(3) b
  obtain stp where stp: "scan (length pre) post initState = Inr stp"
    and "b = stp\<lparr>result := \<lparr>title = title (result st), description = description (result st),
                          sections = sections (result (endList st)) @ sections (result stp)\<rparr>\<rparr>"
    by (auto simp: inMetadata_endList title_endList)
  then have "result (endList b) =
    \<lparr>title = title (result st), description = description (result st),
     sections = sections (result (endList st)) @ sections (result (endList stp))\<rparr>"
    by (simp only: result_endList_prefix)
  moreover have "scan 0 (pre @ post) initState = scan (length pre) post st"
    using assms(2) by (simp add: loop_scan scan_append)
  ultimately have "parsePmap input =
      Inr \<lparr>title = title (result st), description = description (result st),
           sections = sections (result (endList st)) @ sections (result (endList stp))\<rparr>"
    using a ab by (simp add: parsePmap_def assms(1) loop_scan)
  moreover have "loop (pre @ post) (length pre) initState = Inr stp"
    using stp by (simp add: loop_scan)
  ultimately show ?thesis by blast
qed

lemma loop_snoc:
  assumes "loop pre 0 initState = Inr st" "step (length pre) l st = Inr st1"
  shows "loop (pre @ [l]) 0 initState = Inr st1"
  using assms by (simp add: loop_scan scan_append)

lemma heading_document:
  assumes "splitStr input 0x0A = pre @ l # post" and "loop pre 0 initState = Inr st"
    and "\<not> inMetadata st" and "startsWith (trim l) (lit ''#'')"
  shows "\<exists>stp. loop (pre @ l # post) (Suc (length pre)) initState = Inr stp \<and>
    parsePmap input =
      Inr \<lparr>title = title (result st), description = description (result st),
           sections =
             sections (result st) @
             (case currentList st of
                None \<Rightarrow> []
              | Some xs \<Rightarrow>
                  [\<lparr>type = SList, content = [], level = None, items = Some xs, url = None, alt = None\<rparr>]) @
             \<lparr>type = SHeading, content = trim (drop (leadingHashes (trim l)) (trim l)),
               level = Some (leadingHashes (trim l)), items = None, url = None, alt = None\<rparr> #
             sections (result (endList stp))\<rparr>"
proof -
  let ?h = "headingSection (trim (drop (leadingHashes (trim l)) (trim l))) (leadingHashes (trim l))"
  let ?st1 = "pushSection ?h (endList st)"
  have "step (length pre) l st = Inr ?st1"
    using step_heading [OF assms(3,4)] by (simp add: leadingHashes_def)
  with assms(2) have 1: "loop (pre @ [l]) 0 initState = Inr ?st1"
    by (rule loop_snoc)
  have 2: "splitStr input 0x0A = (pre @ [l]) @ post"
    using assms(1) by simp
  have 3: "\<not> inMetadata ?st1" "currentList ?st1 = None"
    using assms(3) by (simp_all add: pushSection_def inMetadata_endList currentList_endList)
  from document_tail [OF 2 1 3(1)] 3(2) obtain stp where
    "loop ((pre @ [l]) @ post) (length (pre @ [l])) initState = Inr stp"
    "parsePmap input =
      Inr \<lparr>title = title (result ?st1), description = description (result ?st1),
           sections = sections (result (endList ?st1)) @ sections (result (endList stp))\<rparr>"
    by auto
  then show ?thesis
    using 3(2)
    by (simp add: endList_None)
       (simp add: pushSection_def sections_endList title_endList headingSection_def listSection_def
          split: option.splits)
qed

lemma run_document:
  assumes "splitStr input 0x0A = pre @ run @ post" and "loop pre 0 initState = Inr st"
    and "\<not> inMetadata st" and "run \<noteq> []" and "\<forall>l\<in>set run. startsWith (trim l) (lit ''-'')"
    and "pre = [] \<longrightarrow> trim (hd run) \<noteq> lit ''---''"
    and "post = [] \<or> \<not> startsWith (trim (hd post)) (lit ''-'')"
  shows "\<exists>stp. loop (pre @ run @ post) (length pre + length run) initState = Inr stp \<and>
    parsePmap input =
      Inr \<lparr>title = title (result st), description = description (result st),
           sections =
             sections (result st) @
             \<lparr>type = SList, content = [], level = None,
               items = Some ((case currentList st of None \<Rightarrow> [] | Some xs \<Rightarrow> xs) @
                             map (\<lambda>l. trim (drop 1 (trim l))) run),
               url = None, alt = None\<rparr> #
             sections (result (endList stp))\<rparr>"
proof -
  let ?items = "(case currentList st of None \<Rightarrow> [] | Some xs \<Rightarrow> xs) @ map (\<lambda>l. trim (drop 1 (trim l))) run"
  let ?stR = "st\<lparr>currentList := Some ?items\<rparr>"
  have "scan (length pre) run st = Inr ?stR"
    using scan_run [OF assms(3,5), of "length pre"] assms(4,6) by simp
  then have 1: "loop (pre @ run) 0 initState = Inr ?stR"
    using assms(2) by (simp add: loop_scan scan_append)
  have 2: "splitStr input 0x0A = (pre @ run) @ post"
    using assms(1) by simp
  have 3: "\<not> inMetadata ?stR" "pre @ run \<noteq> []"
    using assms(3,4) by simp_all
  from document_tail [OF 2 1 3] assms(7) obtain stp where
    "loop ((pre @ run) @ post) (length (pre @ run)) initState = Inr stp"
    "parsePmap input =
      Inr \<lparr>title = title (result ?stR), description = description (result ?stR),
           sections = sections (result (endList ?stR)) @ sections (result (endList stp))\<rparr>"
    by auto
  then show ?thesis
    by (simp add: sections_endList listSection_def)
qed

subsection \<open>The lines after the metadata block\<close>

lemma drop_suffix: "b = drop m ls \<Longrightarrow> drop (length ls - length b) ls = b"
  by (cases "m \<le> length ls") simp_all

lemma afterFrontMatter_drop:
  "drop (length ls - length (afterFrontMatter ls)) ls = afterFrontMatter ls"
proof (cases ls)
  case Nil
  then show ?thesis by (simp add: afterFrontMatter_def)
next
  case (Cons l0 rest)
  show ?thesis
  proof (cases "trim l0 = lit ''---''")
    case True
    let ?P = "\<lambda>l. trim l \<noteq> lit ''---''"
    have "afterFrontMatter ls = drop (Suc (Suc (length (takeWhile ?P rest)))) ls"
      using Cons True by (simp add: afterFrontMatter_def dropWhile_eq_drop)
    then show ?thesis by (rule drop_suffix)
  next
    case False
    then show ?thesis using Cons by (simp add: afterFrontMatter_def)
  qed
qed

lemma body_document:
  assumes "parsePmap input = Inr d"
  shows "\<exists>st. loop (splitStr input 0x0A)
        (length (splitStr input 0x0A) - length (afterFrontMatter (splitStr input 0x0A)))
        initState = Inr st
    \<and> sections d = sections (result (endList st))"
proof -
  let ?ls = "splitStr input 0x0A"
  let ?k = "length ?ls - length (afterFrontMatter ?ls)"
  have l: "loop ?ls ?k initState = scan ?k (afterFrontMatter ?ls) initState"
    by (simp add: loop_scan afterFrontMatter_drop)
  show ?thesis
  proof (cases ?ls)
    case Nil
    with assms have "d = result (endList initState)"
      by (simp add: parsePmap_def loop_scan)
    then show ?thesis
      using Nil l by (simp add: afterFrontMatter_def)
  next
    case (Cons l0 ls)
    show ?thesis
    proof (cases "trim l0 = lit ''---''")
      case True
      let ?P = "\<lambda>l. trim l \<noteq> lit ''---''"
      let ?ms = "takeWhile ?P ls" and ?rest = "dropWhile ?P ls"
      have 1: "splitStr input 0x0A = l0 # ?ms @ ?rest"
        using Cons by simp
      have 2: "\<forall>m\<in>set ?ms. trim m \<noteq> lit ''---''"
        using set_takeWhileD [of _ ?P ls] by blast
      have 3: "?rest = [] \<or> trim (hd ?rest) = lit ''---''"
        using hd_dropWhile [of ?P ls] by blast
      from metadata_block_scan [OF 1 True 2 3] assms obtain st where
        s: "scan (length ?ms + 2) (tl ?rest) initState = Inr st"
        and d: "sections d = sections (result (endList st))"
        by auto
      have b: "afterFrontMatter ?ls = tl ?rest"
        using Cons True by (simp add: afterFrontMatter_def drop_Suc)
      show ?thesis
      proof (cases ?rest)
        case Nil
        with s b l d show ?thesis by simp
      next
        case (Cons cl body)
        have "length ?ms + length ?rest = length ls"
          by (metis length_append takeWhile_dropWhile_id)
        then have "length ?ls = Suc (length ?ms + length ?rest)"
          using \<open>?ls = l0 # ls\<close> by (simp only: list.size)
        then have "?k = length ?ms + 2"
          using b Cons by simp
        with s b l d show ?thesis by simp
      qed
    next
      case False
      from assms obtain st where "scan 0 ?ls initState = Inr st" "d = result (endList st)"
        by (auto simp: parsePmap_def Let_def loop_scan split: sum.splits)
      moreover have "afterFrontMatter ?ls = ?ls"
        using Cons False by (simp add: afterFrontMatter_def)
      ultimately show ?thesis
        using l by simp
    qed
  qed
qed

lemma no_item_lines_no_list:
  assumes "\<forall>l\<in>set (afterFrontMatter (splitStr input 0x0A)). \<not> startsWith (trim l) (lit ''-'')"
    and "parsePmap input = Inr d" and "s \<in> set (sections d)"
  shows "type s \<noteq> SList"
proof -
  from body_document [OF assms(2)] obtain st where
    l: "scan (length (splitStr input 0x0A) - length (afterFrontMatter (splitStr input 0x0A)))
          (afterFrontMatter (splitStr input 0x0A)) initState = Inr st"
    and d: "sections d = sections (result (endList st))"
    by (auto simp: loop_scan afterFrontMatter_drop)
  from scan_no_item [OF assms(1) _ _ l]
  have "currentList st = None \<and> (\<forall>s\<in>set (sections (result st)). type s \<noteq> SList)"
    by (simp add: initState_def)
  with d assms(3) show ?thesis
    by (simp add: endList_None)
qed

subsection \<open>Headings\<close>

lemma hashes_heading_fields:
  assumes "0 < k"
  shows "parsePmap (replicate k 0x23 @ lit '' X'') =
    Inr \<lparr>title = None, description = None,
         sections = [\<lparr>type = SHeading, content = lit ''X'', level = Some k, items = None,
                      url = None, alt = None\<rparr>]\<rparr>"
  using hashes_heading [OF assms] by (simp add: headingSection_def)

text \<open>
  C4: in a document with the lines \<open>pre\<close>, \<open>l\<close>, \<open>post\<close>, where the loop reaches \<open>l\<close> outside
  a metadata block (in the state \<open>st\<close>) and the trimmed \<open>l\<close> starts with \<open>#\<close>: the result
  has the sections that \<open>pre\<close> gave, the list that was pending, then one section of type
  heading whose level is the number of leading \<open>#\<close> of the trimmed line and whose content
  is the rest of the trimmed line, trimmed, then the sections that the lines of \<open>post\<close>
  give. The level has no upper bound: \<open>k\<close> times \<open>#\<close> gives the level \<open>k\<close>.
\<close>

theorem heading_sections:
  "(splitStr input 0x0A = pre @ l # post \<and> loop pre 0 initState = Inr st \<and> \<not> inMetadata st
      \<and> startsWith (trim l) (lit ''#'') \<longrightarrow>
      0 < leadingHashes (trim l) \<and>
      (\<exists>stp. loop (pre @ l # post) (Suc (length pre)) initState = Inr stp \<and>
         parsePmap input =
           Inr \<lparr>title = title (result st), description = description (result st),
                sections =
                  sections (result st) @
                  (case currentList st of
                     None \<Rightarrow> []
                   | Some xs \<Rightarrow>
                       [\<lparr>type = SList, content = [], level = None, items = Some xs,
                         url = None, alt = None\<rparr>]) @
                  \<lparr>type = SHeading, content = trim (drop (leadingHashes (trim l)) (trim l)),
                    level = Some (leadingHashes (trim l)), items = None, url = None, alt = None\<rparr> #
                  sections (result (endList stp))\<rparr>))
   \<and> (0 < k \<longrightarrow>
        parsePmap (replicate k 0x23 @ lit '' X'') =
          Inr \<lparr>title = None, description = None,
               sections = [\<lparr>type = SHeading, content = lit ''X'', level = Some k, items = None,
                            url = None, alt = None\<rparr>]\<rparr>)
   \<and> parsePmap (lit ''## Hello'') =
        Inr \<lparr>title = None, description = None,
             sections = [\<lparr>type = SHeading, content = lit ''Hello'', level = Some 2, items = None,
                          url = None, alt = None\<rparr>]\<rparr>
   \<and> parsePmap (lit ''#### X'') =
        Inr \<lparr>title = None, description = None,
             sections = [\<lparr>type = SHeading, content = lit ''X'', level = Some 4, items = None,
                          url = None, alt = None\<rparr>]\<rparr>"
proof (intro conjI impI)
  assume a: "splitStr input 0x0A = pre @ l # post \<and> loop pre 0 initState = Inr st \<and> \<not> inMetadata st
      \<and> startsWith (trim l) (lit ''#'')"
  then show "0 < leadingHashes (trim l)"
    unfolding leadingHashes_def by (intro takeWhile_hash_pos) simp
  from a show "\<exists>stp. loop (pre @ l # post) (Suc (length pre)) initState = Inr stp \<and>
         parsePmap input =
           Inr \<lparr>title = title (result st), description = description (result st),
                sections =
                  sections (result st) @
                  (case currentList st of
                     None \<Rightarrow> []
                   | Some xs \<Rightarrow>
                       [\<lparr>type = SList, content = [], level = None, items = Some xs,
                         url = None, alt = None\<rparr>]) @
                  \<lparr>type = SHeading, content = trim (drop (leadingHashes (trim l)) (trim l)),
                    level = Some (leadingHashes (trim l)), items = None, url = None, alt = None\<rparr> #
                  sections (result (endList stp))\<rparr>"
    by (intro heading_document) simp_all
next
  assume "0 < k"
  then show "parsePmap (replicate k 0x23 @ lit '' X'') =
          Inr \<lparr>title = None, description = None,
               sections = [\<lparr>type = SHeading, content = lit ''X'', level = Some k, items = None,
                            url = None, alt = None\<rparr>]\<rparr>"
    by (rule hashes_heading_fields)
next
  show "parsePmap (lit ''## Hello'') =
        Inr \<lparr>title = None, description = None,
             sections = [\<lparr>type = SHeading, content = lit ''Hello'', level = Some 2, items = None,
                          url = None, alt = None\<rparr>]\<rparr>"
    by code_simp
next
  show "parsePmap (lit ''#### X'') =
        Inr \<lparr>title = None, description = None,
             sections = [\<lparr>type = SHeading, content = lit ''X'', level = Some 4, items = None,
                          url = None, alt = None\<rparr>]\<rparr>"
    by code_simp
qed

theorem heading_sections_witness:
  "parsePmap (lit ''intro\<newline>- x\<newline>  ### Deep  title \<newline>\<newline>tail'') =
     Inr \<lparr>title = None, description = None,
          sections =
            [\<lparr>type = SText, content = lit ''intro'', level = None, items = None, url = None, alt = None\<rparr>,
             \<lparr>type = SList, content = [], level = None, items = Some [lit ''x''], url = None, alt = None\<rparr>,
             \<lparr>type = SHeading, content = lit ''Deep  title'', level = Some 3, items = None,
               url = None, alt = None\<rparr>,
             \<lparr>type = SText, content = lit ''tail'', level = None, items = None, url = None, alt = None\<rparr>]\<rparr>
   \<and> parsePmap (replicate 10 0x23 @ lit '' X'') =
       Inr \<lparr>title = None, description = None,
            sections = [\<lparr>type = SHeading, content = lit ''X'', level = Some 10, items = None,
                         url = None, alt = None\<rparr>]\<rparr>"
proof -
  let ?input = "lit ''intro\<newline>- x\<newline>  ### Deep  title \<newline>\<newline>tail''"
  let ?pre = "[lit ''intro'', lit ''- x'']" and ?l = "lit ''  ### Deep  title ''"
  let ?post = "[[], lit ''tail'']"
  let ?st = "\<lparr>result = \<lparr>title = None, description = None,
      sections = [\<lparr>type = SText, content = lit ''intro'', level = None, items = None,
                   url = None, alt = None\<rparr>]\<rparr>,
    currentList = Some [lit ''x''], inMetadata = False\<rparr>"
  let ?stp = "\<lparr>result = \<lparr>title = None, description = None,
      sections = [\<lparr>type = SText, content = lit ''tail'', level = None, items = None,
                   url = None, alt = None\<rparr>]\<rparr>,
    currentList = None, inMetadata = False\<rparr>"
  have 1: "splitStr ?input 0x0A = ?pre @ ?l # ?post"
    by code_simp
  have 2: "loop ?pre 0 initState = Inr ?st"
    unfolding loop_scan by code_simp
  have 3: "\<not> inMetadata ?st"
    by simp
  have 4: "startsWith (trim ?l) (lit ''#'')"
    by code_simp
  have 5: "leadingHashes (trim ?l) = 3" "trim (drop 3 (trim ?l)) = lit ''Deep  title''"
    by code_simp+
  have 6: "loop (?pre @ ?l # ?post) (Suc (length ?pre)) initState = Inr ?stp"
    unfolding loop_scan by code_simp
  have k: "(0::nat) < 10" by simp
  note t = heading_sections [where input = ?input and pre = ?pre and l = ?l and post = ?post
      and st = ?st and k = 10]
  from t 1 2 3 4 obtain stp where
    a: "loop (?pre @ ?l # ?post) (Suc (length ?pre)) initState = Inr stp"
    and b: "parsePmap ?input =
      Inr \<lparr>title = title (result ?st), description = description (result ?st),
           sections =
             sections (result ?st) @
             (case currentList ?st of
                None \<Rightarrow> []
              | Some xs \<Rightarrow>
                  [\<lparr>type = SList, content = [], level = None, items = Some xs,
                    url = None, alt = None\<rparr>]) @
             \<lparr>type = SHeading, content = trim (drop (leadingHashes (trim ?l)) (trim ?l)),
               level = Some (leadingHashes (trim ?l)), items = None, url = None, alt = None\<rparr> #
             sections (result (endList stp))\<rparr>"
    by blast
  from a have "stp = ?stp"
    unfolding 6 by simp
  with b have A: "parsePmap ?input =
     Inr \<lparr>title = None, description = None,
          sections =
            [\<lparr>type = SText, content = lit ''intro'', level = None, items = None, url = None, alt = None\<rparr>,
             \<lparr>type = SList, content = [], level = None, items = Some [lit ''x''], url = None, alt = None\<rparr>,
             \<lparr>type = SHeading, content = lit ''Deep  title'', level = Some 3, items = None,
               url = None, alt = None\<rparr>,
             \<lparr>type = SText, content = lit ''tail'', level = None, items = None, url = None, alt = None\<rparr>]\<rparr>"
    unfolding 5 by (simp add: endList_def)
  from t k have "parsePmap (replicate 10 0x23 @ lit '' X'') =
       Inr \<lparr>title = None, description = None,
            sections = [\<lparr>type = SHeading, content = lit ''X'', level = Some 10, items = None,
                         url = None, alt = None\<rparr>]\<rparr>"
    by blast
  with A show ?thesis by blast
qed

subsection \<open>A line of three dashes after the first line\<close>

text \<open>
  C7, as the code has it: in a document with the lines \<open>pre\<close> (at least one), a line \<open>l\<close>
  that trims to \<open>---\<close> and is reached outside a metadata block, the list-item lines \<open>run\<close>
  that follow it and the lines \<open>post\<close> (the first of which is not a list-item line):
  \<open>l\<close> is not a delimiter; it is a list item, it adds the item \<open>--\<close> to the pending list,
  and the result has a section of type list whose items are those that were pending,
  then \<open>--\<close>, then the items of \<open>run\<close>.
\<close>

theorem dashes_line_is_item:
  assumes "splitStr input 0x0A = pre @ l # run @ post" and "pre \<noteq> []"
    and "loop pre 0 initState = Inr st" and "\<not> inMetadata st" and "trim l = lit ''---''"
    and "\<forall>x\<in>set run. startsWith (trim x) (lit ''-'')"
    and "post = [] \<or> \<not> startsWith (trim (hd post)) (lit ''-'')"
  shows "loop (pre @ l # run @ post) (length pre) st =
      loop (pre @ l # run @ post) (Suc (length pre))
        (st\<lparr>currentList :=
           Some ((case currentList st of None \<Rightarrow> [] | Some xs \<Rightarrow> xs) @ [lit ''--''])\<rparr>)
    \<and> (\<exists>stp. loop (pre @ l # run @ post) (Suc (length pre + length run)) initState = Inr stp \<and>
         parsePmap input =
           Inr \<lparr>title = title (result st), description = description (result st),
                sections =
                  sections (result st) @
                  \<lparr>type = SList, content = [], level = None,
                    items = Some ((case currentList st of None \<Rightarrow> [] | Some xs \<Rightarrow> xs) @
                                  lit ''--'' # map (\<lambda>x. trim (drop 1 (trim x))) run),
                    url = None, alt = None\<rparr> #
                  sections (result (endList stp))\<rparr>)"
proof
  have d: "trim (drop 1 (lit ''---'')) = lit ''--''"
    by code_simp
  have "step (length pre) l st =
    Inr (st\<lparr>currentList :=
         Some ((case currentList st of None \<Rightarrow> [] | Some xs \<Rightarrow> xs) @ [lit ''--''])\<rparr>)"
    using step_item [of st l "length pre"] assms(2,4,5) dashes_startsWith_dash d by simp
  then show "loop (pre @ l # run @ post) (length pre) st =
      loop (pre @ l # run @ post) (Suc (length pre))
        (st\<lparr>currentList :=
           Some ((case currentList st of None \<Rightarrow> [] | Some xs \<Rightarrow> xs) @ [lit ''--''])\<rparr>)"
    using loop_step [of "length pre" "pre @ l # run @ post" st] by simp
  have 1: "splitStr input 0x0A = pre @ (l # run) @ post"
    using assms(1) by simp
  have 2: "l # run \<noteq> []" "\<forall>x\<in>set (l # run). startsWith (trim x) (lit ''-'')"
    "pre = [] \<longrightarrow> trim (hd (l # run)) \<noteq> lit ''---''"
    using assms(2,5,6) dashes_startsWith_dash by simp_all
  from run_document [OF 1 assms(3,4) 2 assms(7)]
  show "\<exists>stp. loop (pre @ l # run @ post) (Suc (length pre + length run)) initState = Inr stp \<and>
         parsePmap input =
           Inr \<lparr>title = title (result st), description = description (result st),
                sections =
                  sections (result st) @
                  \<lparr>type = SList, content = [], level = None,
                    items = Some ((case currentList st of None \<Rightarrow> [] | Some xs \<Rightarrow> xs) @
                                  lit ''--'' # map (\<lambda>x. trim (drop 1 (trim x))) run),
                    url = None, alt = None\<rparr> #
                  sections (result (endList stp))\<rparr>"
    using assms(5) d by simp
qed

theorem dashes_line_is_item_witness:
  "parsePmap (lit ''x\<newline>\<newline>y\<newline>- a\<newline> --- \<newline>- b\<newline>z'') =
     Inr \<lparr>title = None, description = None,
          sections =
            [\<lparr>type = SText, content = lit ''x'', level = None, items = None, url = None, alt = None\<rparr>,
             \<lparr>type = SText, content = lit ''y'', level = None, items = None, url = None, alt = None\<rparr>,
             \<lparr>type = SList, content = [], level = None,
               items = Some [lit ''a'', lit ''--'', lit ''b''], url = None, alt = None\<rparr>,
             \<lparr>type = SText, content = lit ''z'', level = None, items = None, url = None, alt = None\<rparr>]\<rparr>"
proof -
  let ?input = "lit ''x\<newline>\<newline>y\<newline>- a\<newline> --- \<newline>- b\<newline>z''"
  let ?pre = "[lit ''x'', [], lit ''y'', lit ''- a'']" and ?l = "lit '' --- ''"
  let ?run = "[lit ''- b'']" and ?post = "[lit ''z'']"
  let ?st = "\<lparr>result = \<lparr>title = None, description = None,
      sections =
        [\<lparr>type = SText, content = lit ''x'', level = None, items = None, url = None, alt = None\<rparr>,
         \<lparr>type = SText, content = lit ''y'', level = None, items = None, url = None, alt = None\<rparr>]\<rparr>,
    currentList = Some [lit ''a''], inMetadata = False\<rparr>"
  let ?stp = "\<lparr>result = \<lparr>title = None, description = None,
      sections = [\<lparr>type = SText, content = lit ''z'', level = None, items = None,
                   url = None, alt = None\<rparr>]\<rparr>,
    currentList = None, inMetadata = False\<rparr>"
  have 1: "splitStr ?input 0x0A = ?pre @ ?l # ?run @ ?post"
    by code_simp
  have 2: "?pre \<noteq> []"
    by simp
  have 3: "loop ?pre 0 initState = Inr ?st"
    unfolding loop_scan by code_simp
  have 4: "\<not> inMetadata ?st"
    by simp
  have 5: "trim ?l = lit ''---''"
    by code_simp
  have 6: "\<forall>x\<in>set ?run. startsWith (trim x) (lit ''-'')"
    by code_simp
  have 7: "?post = [] \<or> \<not> startsWith (trim (hd ?post)) (lit ''-'')"
    by code_simp
  have 8: "loop (?pre @ ?l # ?run @ ?post) (Suc (length ?pre + length ?run)) initState = Inr ?stp"
    unfolding loop_scan by code_simp
  have 9: "map (\<lambda>x. trim (drop 1 (trim x))) ?run = [lit ''b'']"
    by code_simp
  from dashes_line_is_item [OF 1 2 3 4 5 6 7] obtain stp where
    a: "loop (?pre @ ?l # ?run @ ?post) (Suc (length ?pre + length ?run)) initState = Inr stp"
    and b: "parsePmap ?input =
      Inr \<lparr>title = title (result ?st), description = description (result ?st),
           sections =
             sections (result ?st) @
             \<lparr>type = SList, content = [], level = None,
               items = Some ((case currentList ?st of None \<Rightarrow> [] | Some xs \<Rightarrow> xs) @
                             lit ''--'' # map (\<lambda>x. trim (drop 1 (trim x))) ?run),
               url = None, alt = None\<rparr> #
             sections (result (endList stp))\<rparr>"
    by blast
  from a have "stp = ?stp"
    unfolding 8 by simp
  with b show ?thesis
    unfolding 9 by (simp add: endList_def)
qed

text \<open>
  The document \<open>a\<close>, line feed, \<open>---\<close> has a list section that the document \<open>a\<close> lacks.
\<close>

theorem dashes_line_counterexample:
  "parsePmap (lit ''a'' @ [0x0A] @ lit ''---'') =
     Inr \<lparr>title = None, description = None,
          sections =
            [\<lparr>type = SText, content = lit ''a'', level = None, items = None, url = None, alt = None\<rparr>,
             \<lparr>type = SList, content = [], level = None, items = Some [lit ''--''],
               url = None, alt = None\<rparr>]\<rparr>
   \<and> parsePmap (lit ''a'') =
     Inr \<lparr>title = None, description = None,
          sections =
            [\<lparr>type = SText, content = lit ''a'', level = None, items = None, url = None, alt = None\<rparr>]\<rparr>
   \<and> parsePmap (lit ''a'' @ [0x0A] @ lit ''---'') \<noteq> parsePmap (lit ''a'')"
proof -
  have 1: "parsePmap (lit ''a'' @ [0x0A] @ lit ''---'') =
     Inr \<lparr>title = None, description = None,
          sections =
            [\<lparr>type = SText, content = lit ''a'', level = None, items = None, url = None, alt = None\<rparr>,
             \<lparr>type = SList, content = [], level = None, items = Some [lit ''--''],
               url = None, alt = None\<rparr>]\<rparr>"
    by code_simp
  have 2: "parsePmap (lit ''a'') =
     Inr \<lparr>title = None, description = None,
          sections =
            [\<lparr>type = SText, content = lit ''a'', level = None, items = None, url = None, alt = None\<rparr>]\<rparr>"
    by code_simp
  show ?thesis unfolding 1 2 by simp
qed

subsection \<open>Runs of list items\<close>

lemma text_list_text_fields:
  assumes "splitStr input 0x0A = [p1, l, b, p2]"
    and "isParagraphLine p1" and "startsWith (trim l) (lit ''-'')" and "trim b = []"
    and "isParagraphLine p2"
  shows "parsePmap input =
    Inr \<lparr>title = None, description = None,
         sections =
           [\<lparr>type = SText, content = trim p1, level = None, items = None, url = None, alt = None\<rparr>,
            \<lparr>type = SList, content = [], level = None, items = Some [trim (drop 1 (trim l))],
              url = None, alt = None\<rparr>,
            \<lparr>type = SText, content = trim p2, level = None, items = None, url = None, alt = None\<rparr>]\<rparr>"
  using text_list_text [OF assms] by (simp add: textSection_def listSection_def)

text \<open>
  C2, as the code has it. A list-item line is a line after the metadata block whose
  trimmed form starts with \<open>-\<close>. In a document with the lines \<open>pre\<close>, \<open>run\<close>, \<open>post\<close>, where
  the loop reaches \<open>run\<close> outside a metadata block with no list pending (in the state
  \<open>st\<close>), all the lines of \<open>run\<close> are list-item lines and the first line of \<open>post\<close>, if any,
  is not: the result has the sections that \<open>pre\<close> gave, then one section of type list
  whose items are those of the lines of \<open>run\<close>, in their order, then the sections that
  the lines of \<open>post\<close> give. A document none of whose lines after the metadata block
  starts with \<open>-\<close> has no section of type list. The sections of a document are those
  that its lines after the metadata block give, so the lines of the block, also those
  that start with \<open>-\<close>, give none. A document of four lines, a paragraph, a list item, a
  blank line and a paragraph, has the sections text, list of one item, text.
\<close>

theorem list_runs:
  "(splitStr input 0x0A = pre @ run @ post \<and> loop pre 0 initState = Inr st
      \<and> currentList st = None \<and> \<not> inMetadata st
      \<and> run \<noteq> [] \<and> (\<forall>l\<in>set run. startsWith (trim l) (lit ''-''))
      \<and> (pre = [] \<longrightarrow> trim (hd run) \<noteq> lit ''---'')
      \<and> (post = [] \<or> \<not> startsWith (trim (hd post)) (lit ''-''))
    \<longrightarrow> (\<exists>stp. loop (pre @ run @ post) (length pre + length run) initState = Inr stp \<and>
           parsePmap input =
             Inr \<lparr>title = title (result st), description = description (result st),
                  sections =
                    sections (result st) @
                    \<lparr>type = SList, content = [], level = None,
                      items = Some (map (\<lambda>l. trim (drop 1 (trim l))) run),
                      url = None, alt = None\<rparr> #
                    sections (result (endList stp))\<rparr>))
   \<and> ((\<forall>l\<in>set (afterFrontMatter (splitStr input 0x0A)). \<not> startsWith (trim l) (lit ''-''))
        \<and> parsePmap input = Inr d \<and> s \<in> set (sections d)
      \<longrightarrow> type s \<noteq> SList)
   \<and> (parsePmap input = Inr d
      \<longrightarrow> (\<exists>st. loop (splitStr input 0x0A)
                  (length (splitStr input 0x0A) - length (afterFrontMatter (splitStr input 0x0A)))
                  initState = Inr st
            \<and> sections d = sections (result (endList st))))
   \<and> (splitStr input 0x0A = [p1, l1, b, p2] \<and> isParagraphLine p1
        \<and> startsWith (trim l1) (lit ''-'') \<and> trim b = [] \<and> isParagraphLine p2
      \<longrightarrow> parsePmap input =
            Inr \<lparr>title = None, description = None,
                 sections =
                   [\<lparr>type = SText, content = trim p1, level = None, items = None,
                      url = None, alt = None\<rparr>,
                    \<lparr>type = SList, content = [], level = None,
                      items = Some [trim (drop 1 (trim l1))], url = None, alt = None\<rparr>,
                    \<lparr>type = SText, content = trim p2, level = None, items = None,
                      url = None, alt = None\<rparr>]\<rparr>)"
proof (intro conjI impI)
  assume a: "splitStr input 0x0A = pre @ run @ post \<and> loop pre 0 initState = Inr st
      \<and> currentList st = None \<and> \<not> inMetadata st
      \<and> run \<noteq> [] \<and> (\<forall>l\<in>set run. startsWith (trim l) (lit ''-''))
      \<and> (pre = [] \<longrightarrow> trim (hd run) \<noteq> lit ''---'')
      \<and> (post = [] \<or> \<not> startsWith (trim (hd post)) (lit ''-''))"
  then have "\<exists>stp. loop (pre @ run @ post) (length pre + length run) initState = Inr stp \<and>
    parsePmap input =
      Inr \<lparr>title = title (result st), description = description (result st),
           sections =
             sections (result st) @
             \<lparr>type = SList, content = [], level = None,
               items = Some ((case currentList st of None \<Rightarrow> [] | Some xs \<Rightarrow> xs) @
                             map (\<lambda>l. trim (drop 1 (trim l))) run),
               url = None, alt = None\<rparr> #
             sections (result (endList stp))\<rparr>"
    by (intro run_document) blast+
  with a show "\<exists>stp. loop (pre @ run @ post) (length pre + length run) initState = Inr stp \<and>
           parsePmap input =
             Inr \<lparr>title = title (result st), description = description (result st),
                  sections =
                    sections (result st) @
                    \<lparr>type = SList, content = [], level = None,
                      items = Some (map (\<lambda>l. trim (drop 1 (trim l))) run),
                      url = None, alt = None\<rparr> #
                    sections (result (endList stp))\<rparr>"
    by simp
next
  assume "(\<forall>l\<in>set (afterFrontMatter (splitStr input 0x0A)). \<not> startsWith (trim l) (lit ''-''))
        \<and> parsePmap input = Inr d \<and> s \<in> set (sections d)"
  then show "type s \<noteq> SList"
    using no_item_lines_no_list [of input d s] by blast
next
  assume "parsePmap input = Inr d"
  then show "\<exists>st. loop (splitStr input 0x0A)
                  (length (splitStr input 0x0A) - length (afterFrontMatter (splitStr input 0x0A)))
                  initState = Inr st
            \<and> sections d = sections (result (endList st))"
    by (rule body_document)
next
  assume "splitStr input 0x0A = [p1, l1, b, p2] \<and> isParagraphLine p1
        \<and> startsWith (trim l1) (lit ''-'') \<and> trim b = [] \<and> isParagraphLine p2"
  then show "parsePmap input =
            Inr \<lparr>title = None, description = None,
                 sections =
                   [\<lparr>type = SText, content = trim p1, level = None, items = None,
                      url = None, alt = None\<rparr>,
                    \<lparr>type = SList, content = [], level = None,
                      items = Some [trim (drop 1 (trim l1))], url = None, alt = None\<rparr>,
                    \<lparr>type = SText, content = trim p2, level = None, items = None,
                      url = None, alt = None\<rparr>]\<rparr>"
    by (intro text_list_text_fields) blast+
qed

theorem list_runs_witness:
  "parsePmap (lit ''---\<newline>title: T\<newline>---\<newline># h\<newline>- b\<newline>-  a \<newline>- c\<newline>\<newline>- d'') =
     Inr \<lparr>title = Some (lit ''T''), description = None,
          sections =
            [\<lparr>type = SHeading, content = lit ''h'', level = Some 1, items = None,
               url = None, alt = None\<rparr>,
             \<lparr>type = SList, content = [], level = None,
               items = Some [lit ''b'', lit ''a'', lit ''c''], url = None, alt = None\<rparr>,
             \<lparr>type = SList, content = [], level = None, items = Some [lit ''d''],
               url = None, alt = None\<rparr>]\<rparr>
   \<and> afterFrontMatter (splitStr (lit ''---\<newline>title: T\<newline>---\<newline>text'') 0x0A) = [lit ''text'']
   \<and> parsePmap (lit ''---\<newline>title: T\<newline>---\<newline>text'') =
       Inr \<lparr>title = Some (lit ''T''), description = None,
            sections = [\<lparr>type = SText, content = lit ''text'', level = None, items = None,
                         url = None, alt = None\<rparr>]\<rparr>
   \<and> type \<lparr>type = SText, content = lit ''text'', level = None, items = None,
            url = None, alt = None\<rparr> \<noteq> SList
   \<and> parsePmap (lit ''---\<newline>- a\<newline>---\<newline>text'') =
       Inr \<lparr>title = None, description = None,
            sections = [\<lparr>type = SText, content = lit ''text'', level = None, items = None,
                         url = None, alt = None\<rparr>]\<rparr>
   \<and> (\<exists>st. loop [lit ''---'', lit ''- a'', lit ''---'', lit ''text''] 3 initState = Inr st
         \<and> sections (result (endList st)) =
             [\<lparr>type = SText, content = lit ''text'', level = None, items = None,
                url = None, alt = None\<rparr>])
   \<and> parsePmap (lit ''para\<newline>- item\<newline>\<newline>para2'') =
       Inr \<lparr>title = None, description = None,
            sections =
              [\<lparr>type = SText, content = lit ''para'', level = None, items = None,
                 url = None, alt = None\<rparr>,
               \<lparr>type = SList, content = [], level = None, items = Some [lit ''item''],
                 url = None, alt = None\<rparr>,
               \<lparr>type = SText, content = lit ''para2'', level = None, items = None,
                 url = None, alt = None\<rparr>]\<rparr>"
proof -
  let ?input = "lit ''---\<newline>title: T\<newline>---\<newline># h\<newline>- b\<newline>-  a \<newline>- c\<newline>\<newline>- d''"
  let ?pre = "[lit ''---'', lit ''title: T'', lit ''---'', lit ''# h'']"
  let ?run = "[lit ''- b'', lit ''-  a '', lit ''- c'']" and ?post = "[[], lit ''- d'']"
  let ?st = "\<lparr>result = \<lparr>title = Some (lit ''T''), description = None,
      sections = [\<lparr>type = SHeading, content = lit ''h'', level = Some 1, items = None,
                   url = None, alt = None\<rparr>]\<rparr>,
    currentList = None, inMetadata = False\<rparr>"
  let ?stp = "\<lparr>result = \<lparr>title = None, description = None, sections = []\<rparr>,
    currentList = Some [lit ''d''], inMetadata = False\<rparr>"
  have 1: "splitStr ?input 0x0A = ?pre @ ?run @ ?post"
    by code_simp
  have 2: "loop ?pre 0 initState = Inr ?st"
    unfolding loop_scan by code_simp
  have 3: "currentList ?st = None" "\<not> inMetadata ?st"
    by simp_all
  have 4: "?run \<noteq> []" "\<forall>l\<in>set ?run. startsWith (trim l) (lit ''-'')"
    by simp code_simp
  have 5: "?pre = [] \<longrightarrow> trim (hd ?run) \<noteq> lit ''---''"
    by simp
  have 6: "?post = [] \<or> \<not> startsWith (trim (hd ?post)) (lit ''-'')"
    by code_simp
  have m: "map (\<lambda>l. trim (drop 1 (trim l))) ?run = [lit ''b'', lit ''a'', lit ''c'']"
    by code_simp
  have 7: "loop (?pre @ ?run @ ?post) (length ?pre + length ?run) initState = Inr ?stp"
    unfolding loop_scan by code_simp
  note a = list_runs [where input = ?input and pre = ?pre and run = ?run and post = ?post and st = ?st]
  from a 1 2 3 4 5 6 obtain stp where
    s: "loop (?pre @ ?run @ ?post) (length ?pre + length ?run) initState = Inr stp"
    and p: "parsePmap ?input =
      Inr \<lparr>title = title (result ?st), description = description (result ?st),
           sections =
             sections (result ?st) @
             \<lparr>type = SList, content = [], level = None,
               items = Some (map (\<lambda>l. trim (drop 1 (trim l))) ?run),
               url = None, alt = None\<rparr> #
             sections (result (endList stp))\<rparr>"
    by blast
  from s have "stp = ?stp"
    unfolding 7 by simp
  with p have A: "parsePmap ?input =
     Inr \<lparr>title = Some (lit ''T''), description = None,
          sections =
            [\<lparr>type = SHeading, content = lit ''h'', level = Some 1, items = None,
               url = None, alt = None\<rparr>,
             \<lparr>type = SList, content = [], level = None,
               items = Some [lit ''b'', lit ''a'', lit ''c''], url = None, alt = None\<rparr>,
             \<lparr>type = SList, content = [], level = None, items = Some [lit ''d''],
               url = None, alt = None\<rparr>]\<rparr>"
    unfolding m by (simp add: endList_def pushSection_def listSection_def)
  let ?doc2 = "lit ''---\<newline>title: T\<newline>---\<newline>text''"
  let ?t = "\<lparr>type = SText, content = lit ''text'', level = None, items = None,
            url = None, alt = None\<rparr>"
  have b0: "afterFrontMatter (splitStr ?doc2 0x0A) = [lit ''text'']"
    by code_simp
  have b1: "\<forall>l\<in>set (afterFrontMatter (splitStr ?doc2 0x0A)). \<not> startsWith (trim l) (lit ''-'')"
    unfolding b0 by code_simp
  have b2: "parsePmap ?doc2 = Inr \<lparr>title = Some (lit ''T''), description = None, sections = [?t]\<rparr>"
    by code_simp
  have b3: "?t \<in> set (sections \<lparr>title = Some (lit ''T''), description = None, sections = [?t]\<rparr>)"
    by simp
  note b = list_runs [where input = ?doc2 and s = ?t
      and d = "\<lparr>title = Some (lit ''T''), description = None, sections = [?t]\<rparr>"]
  have B: "type ?t \<noteq> SList"
    using b b1 b2 b3 by blast
  have C: "parsePmap (lit ''para\<newline>- item\<newline>\<newline>para2'') =
       Inr \<lparr>title = None, description = None,
            sections =
              [\<lparr>type = SText, content = lit ''para'', level = None, items = None,
                 url = None, alt = None\<rparr>,
               \<lparr>type = SList, content = [], level = None, items = Some [lit ''item''],
                 url = None, alt = None\<rparr>,
               \<lparr>type = SText, content = lit ''para2'', level = None, items = None,
                 url = None, alt = None\<rparr>]\<rparr>"
  proof -
    let ?doc = "lit ''para\<newline>- item\<newline>\<newline>para2''"
    have c1: "splitStr ?doc 0x0A = [lit ''para'', lit ''- item'', [], lit ''para2'']"
      by code_simp
    have c2: "isParagraphLine (lit ''para'')" "isParagraphLine (lit ''para2'')"
      by code_simp+
    have c3: "startsWith (trim (lit ''- item'')) (lit ''-'')" "trim ([] :: jsstring) = []"
      by code_simp+
    have c4: "trim (lit ''para'') = lit ''para''" "trim (lit ''para2'') = lit ''para2''"
      "trim (drop 1 (trim (lit ''- item''))) = lit ''item''"
      by code_simp+
    from list_runs [where input = ?doc and ?p1.0 = "lit ''para''" and ?l1.0 = "lit ''- item''"
        and b = "[]" and ?p2.0 = "lit ''para2''"] c1 c2 c3
    show ?thesis unfolding c4 by blast
  qed
  let ?doc3 = "lit ''---\<newline>- a\<newline>---\<newline>text''"
  have d1: "parsePmap ?doc3 = Inr \<lparr>title = None, description = None, sections = [?t]\<rparr>"
    by code_simp
  have d2: "splitStr ?doc3 0x0A = [lit ''---'', lit ''- a'', lit ''---'', lit ''text'']"
    "afterFrontMatter [lit ''---'', lit ''- a'', lit ''---'', lit ''text''] = [lit ''text'']"
    by code_simp+
  from list_runs [where input = ?doc3
      and d = "\<lparr>title = None, description = None, sections = [?t]\<rparr>"] d1
  have "\<exists>st. loop (splitStr ?doc3 0x0A)
        (length (splitStr ?doc3 0x0A) - length (afterFrontMatter (splitStr ?doc3 0x0A)))
        initState = Inr st
      \<and> sections \<lparr>title = None, description = None, sections = [?t]\<rparr> =
          sections (result (endList st))"
    by blast
  then have D: "\<exists>st. loop [lit ''---'', lit ''- a'', lit ''---'', lit ''text''] 3 initState = Inr st
         \<and> sections (result (endList st)) = [?t]"
    unfolding d2 by (auto simp: numeral_3_eq_3)
  from A b0 b2 B C d1 D show ?thesis by blast
qed

text \<open>
  Inside a metadata block the lines \<open>- a\<close> and \<open>- b\<close> are consumed as metadata: the
  document has no list section.
\<close>

theorem list_run_in_metadata_counterexample:
  "splitStr (lit ''---\<newline>title: T\<newline>- a\<newline>- b'') 0x0A =
     [lit ''---'', lit ''title: T'', lit ''- a'', lit ''- b'']
   \<and> startsWith (trim (lit ''- a'')) (lit ''-'') \<and> startsWith (trim (lit ''- b'')) (lit ''-'')
   \<and> parsePmap (lit ''---\<newline>title: T\<newline>- a\<newline>- b'') =
       Inr \<lparr>title = Some (lit ''T''), description = None, sections = []\<rparr>"
  by code_simp

subsection \<open>When the image pattern matches\<close>

lemma rmatch_Opt_shape:
  "rmatch (Opt r) inp s c k = Some x \<Longrightarrow> rmatch r inp s c k = Some x \<or> k s c = Some x"
  by (auto split: option.splits)

lemma image_match_shape:
  assumes "rmatch imageRx inp s1 c0 (\<lambda>s' c. Some (s', c)) = Some (s2, c)"
  shows "(\<exists>u. s1 = lit ''[image:'' @ u @ lit '']'' @ s2 \<and> u \<noteq> [] \<and> 0x7C \<notin> set u)
    \<or> (\<exists>u w a. s1 = lit ''[image:'' @ u @ lit ''|'' @ w @ a @ lit '']'' @ s2
          \<and> u \<noteq> [] \<and> 0x7C \<notin> set u \<and> (\<forall>z\<in>set w. isWhiteSpace z)
          \<and> a \<noteq> [] \<and> (\<forall>z\<in>set a. \<not> isLineTerminator z))"
proof -
  let ?K = "\<lambda>s' c. Some (s', c :: captures)"
  let ?G1 = "Grp 1 (Plus (\<lambda>c. c \<noteq> 0x7C))"
  let ?G2 = "Grp 2 (Plus (\<lambda>c. \<not> isLineTerminator c))"
  let ?X = "Seq (Lit (lit ''|'')) (Seq (Star isWhiteSpace) ?G2)"
  let ?k5 = "\<lambda>s' c'. rmatch (Lit (lit '']'')) inp s' c' ?K"
  from assms obtain r1 where 1: "s1 = lit ''[image:'' @ r1"
    and "rmatch (Seq (Star isWhiteSpace) (Seq ?G1 imageTail)) inp r1 c0 ?K = Some (s2, c)"
    unfolding imageRx_tail rmatch_Seq [of "Lit (lit ''[image:'')"]
    by (blast dest: rmatch_Lit_shape)
  then obtain w1 r2 where 2: "r1 = w1 @ r2" "\<forall>z\<in>set w1. isWhiteSpace z"
    and "rmatch (Seq ?G1 imageTail) inp r2 c0 ?K = Some (s2, c)"
    unfolding rmatch_Seq [of "Star isWhiteSpace"]
    by (blast dest: rmatch_Star_shape)
  then obtain g r3 where 3: "r2 = g @ r3" "g \<noteq> []" "\<forall>z\<in>set g. z \<noteq> 0x7C"
    and "rmatch imageTail inp r3 (c0(1 \<mapsto> g)) ?K = Some (s2, c)"
    unfolding rmatch_Seq [of ?G1]
    by (blast dest: rmatch_Grp_Plus_shape)
  then obtain w2 r4 where 4: "r3 = w2 @ r4" "\<forall>z\<in>set w2. isWhiteSpace z"
    and m4: "rmatch (Seq (Opt ?X) (Lit (lit '']''))) inp r4 (c0(1 \<mapsto> g)) ?K = Some (s2, c)"
    unfolding rmatch_Seq [of "Star isWhiteSpace"]
    by (blast dest: rmatch_Star_shape)
  from m4 have o: "rmatch ?X inp r4 (c0(1 \<mapsto> g)) ?k5 = Some (s2, c) \<or> ?k5 r4 (c0(1 \<mapsto> g)) = Some (s2, c)"
    unfolding rmatch_Seq [of "Opt ?X"] by (rule rmatch_Opt_shape)
  let ?u = "w1 @ g @ w2"
  have u: "?u \<noteq> []" "0x7C \<notin> set ?u"
    using 2(2) 3(2,3) 4(2) bracket_facts(3) by auto
  from o show ?thesis
  proof
    assume "?k5 r4 (c0(1 \<mapsto> g)) = Some (s2, c)"
    then obtain r5 where "r4 = lit '']'' @ r5" "Some (r5, c0(1 \<mapsto> g)) = Some (s2, c)"
      by (blast dest: rmatch_Lit_shape)
    then have "s1 = lit ''[image:'' @ ?u @ lit '']'' @ s2"
      using 1 2(1) 3(1) 4(1) by simp
    with u show ?thesis by blast
  next
    assume "rmatch ?X inp r4 (c0(1 \<mapsto> g)) ?k5 = Some (s2, c)"
    then obtain r5 where 5: "r4 = lit ''|'' @ r5"
      and "rmatch (Seq (Star isWhiteSpace) ?G2) inp r5 (c0(1 \<mapsto> g)) ?k5 = Some (s2, c)"
      unfolding rmatch_Seq [of "Lit (lit ''|'')"]
      by (blast dest: rmatch_Lit_shape)
    then obtain w3 r6 where 6: "r5 = w3 @ r6" "\<forall>z\<in>set w3. isWhiteSpace z"
      and "rmatch ?G2 inp r6 (c0(1 \<mapsto> g)) ?k5 = Some (s2, c)"
      unfolding rmatch_Seq [of "Star isWhiteSpace"]
      by (blast dest: rmatch_Star_shape)
    then obtain a r7 where 7: "r6 = a @ r7" "a \<noteq> []" "\<forall>z\<in>set a. \<not> isLineTerminator z"
      and "?k5 r7 (c0(1 \<mapsto> g, 2 \<mapsto> a)) = Some (s2, c)"
      by (blast dest: rmatch_Grp_Plus_shape)
    then obtain r8 where "r7 = lit '']'' @ r8" "Some (r8, c0(1 \<mapsto> g, 2 \<mapsto> a)) = Some (s2, c)"
      by (blast dest: rmatch_Lit_shape)
    then have "s1 = lit ''[image:'' @ ?u @ lit ''|'' @ w3 @ a @ lit '']'' @ s2"
      using 1 2(1) 3(1) 4(1) 5 6(1) 7(1) by simp
    with u 6(2) 7(2,3) show ?thesis by blast
  qed
qed

lemma greedyStar_some:
  assumes "\<forall>z\<in>set a. p z" "k b \<noteq> None"
  shows "greedyStar p (a @ b) k \<noteq> None"
  using assms(1)
proof (induction a)
  case Nil
  show ?case using assms(2) by (cases b) (auto split: option.splits)
next
  case (Cons z a)
  then show ?case by (auto split: option.splits)
qed

lemma rmatch_Star_some:
  "\<forall>z\<in>set a. p z \<Longrightarrow> k b c \<noteq> None \<Longrightarrow> rmatch (Star p) inp (a @ b) c k \<noteq> None"
  by (simp add: greedyStar_some)

lemma rmatch_Star_skip:
  "k b c \<noteq> None \<Longrightarrow> rmatch (Star p) inp b c k \<noteq> None"
  using rmatch_Star_some [of "[]" p k b c inp] by simp

lemma rmatch_Grp_Plus_some:
  assumes "a \<noteq> []" "\<forall>z\<in>set a. p z" "\<And>c'. k b c' \<noteq> None"
  shows "rmatch (Grp g (Plus p)) inp (a @ b) c k \<noteq> None"
proof -
  from assms(1) obtain z a' where a: "a = z # a'" by (cases a) auto
  have "greedyStar p (a' @ b) (\<lambda>s'. k s' (c(g \<mapsto> take (length (a @ b) - length s') (a @ b)))) \<noteq> None"
    using assms(2,3) a by (intro greedyStar_some) simp_all
  then show ?thesis
    using a assms(2) by (simp add: greedyPlus_def)
qed

lemma rmatch_Opt_some:
  "rmatch r inp s c k \<noteq> None \<or> k s c \<noteq> None \<Longrightarrow> rmatch (Opt r) inp s c k \<noteq> None"
  by (auto split: option.splits)

lemma image_match_some:
  assumes "u \<noteq> []" "0x7C \<notin> set u"
    and "\<And>c'. rmatch (Seq (Opt (Seq (Lit (lit ''|''))
              (Seq (Star isWhiteSpace) (Grp 2 (Plus (\<lambda>c. \<not> isLineTerminator c))))))
            (Lit (lit '']''))) inp b c' (\<lambda>s' c. Some (s', c)) \<noteq> None"
  shows "rmatch imageRx inp (lit ''[image:'' @ u @ b) c0 (\<lambda>s' c. Some (s', c)) \<noteq> None"
proof -
  let ?K = "\<lambda>s' c. Some (s', c :: captures)"
  let ?G1 = "Grp 1 (Plus (\<lambda>c. c \<noteq> 0x7C))"
  let ?X = "Seq (Lit (lit ''|'')) (Seq (Star isWhiteSpace) (Grp 2 (Plus (\<lambda>c. \<not> isLineTerminator c))))"
  have t: "\<And>c'. rmatch imageTail inp b c' ?K \<noteq> None"
  proof -
    fix c'
    have "rmatch (Star isWhiteSpace) inp b c'
        (\<lambda>s' c''. rmatch (Seq (Opt ?X) (Lit (lit '']''))) inp s' c'' ?K) \<noteq> None"
      by (rule rmatch_Star_skip) (rule assms(3))
    then show "rmatch imageTail inp b c' ?K \<noteq> None"
      by simp
  qed
  have "rmatch ?G1 inp (u @ b) c0 (\<lambda>s' c'. rmatch imageTail inp s' c' ?K) \<noteq> None"
  proof (rule rmatch_Grp_Plus_some)
    show "u \<noteq> []" by fact
    show "\<forall>z\<in>set u. z \<noteq> 0x7C" using assms(2) by auto
    show "\<And>c'. rmatch imageTail inp b c' ?K \<noteq> None" by (rule t)
  qed
  then have "rmatch (Seq ?G1 imageTail) inp (u @ b) c0 ?K \<noteq> None"
    unfolding rmatch_Seq [of ?G1] .
  then have "rmatch (Star isWhiteSpace) inp (u @ b) c0
      (\<lambda>s' c'. rmatch (Seq ?G1 imageTail) inp s' c' ?K) \<noteq> None"
    by (rule rmatch_Star_skip)
  then show ?thesis
    by (simp add: imageRx_def)
qed

lemma image_match_complete:
  assumes "u \<noteq> []" "0x7C \<notin> set u"
  shows "rmatch imageRx inp (lit ''[image:'' @ u @ lit '']'' @ r) c0 (\<lambda>s' c. Some (s', c)) \<noteq> None"
    and "\<forall>z\<in>set w. isWhiteSpace z \<Longrightarrow> a \<noteq> [] \<Longrightarrow> \<forall>z\<in>set a. \<not> isLineTerminator z \<Longrightarrow>
      rmatch imageRx inp (lit ''[image:'' @ u @ lit ''|'' @ w @ a @ lit '']'' @ r) c0
        (\<lambda>s' c. Some (s', c)) \<noteq> None"
proof -
  let ?K = "\<lambda>s' c. Some (s', c :: captures)"
  let ?G2 = "Grp 2 (Plus (\<lambda>c. \<not> isLineTerminator c))"
  let ?X = "Seq (Lit (lit ''|'')) (Seq (Star isWhiteSpace) ?G2)"
  let ?k5 = "\<lambda>s' c'. rmatch (Lit (lit '']'')) inp s' c' ?K"
  show "rmatch imageRx inp (lit ''[image:'' @ u @ lit '']'' @ r) c0 ?K \<noteq> None"
  proof (rule image_match_some [OF assms])
    fix c'
    have "rmatch (Opt ?X) inp (lit '']'' @ r) c' ?k5 \<noteq> None"
      by (rule rmatch_Opt_some, rule disjI2) simp
    then show "rmatch (Seq (Opt ?X) (Lit (lit '']''))) inp (lit '']'' @ r) c' ?K \<noteq> None"
      unfolding rmatch_Seq [of "Opt ?X"] .
  qed
  assume w: "\<forall>z\<in>set w. isWhiteSpace z" and a: "a \<noteq> []" "\<forall>z\<in>set a. \<not> isLineTerminator z"
  show "rmatch imageRx inp (lit ''[image:'' @ u @ lit ''|'' @ w @ a @ lit '']'' @ r) c0 ?K \<noteq> None"
  proof (rule image_match_some [OF assms])
    fix c'
    have "rmatch ?G2 inp (a @ lit '']'' @ r) c' ?k5 \<noteq> None"
      by (rule rmatch_Grp_Plus_some) (use a in simp_all)
    then have "rmatch (Star isWhiteSpace) inp (w @ a @ lit '']'' @ r) c'
        (\<lambda>s' c''. rmatch ?G2 inp s' c'' ?k5) \<noteq> None"
      using w by (intro rmatch_Star_some)
    then have "rmatch ?X inp (lit ''|'' @ w @ a @ lit '']'' @ r) c' ?k5 \<noteq> None"
      unfolding rmatch_Seq rmatch_Lit_append .
    then have "rmatch (Opt ?X) inp (lit ''|'' @ w @ a @ lit '']'' @ r) c' ?k5 \<noteq> None"
      by (intro rmatch_Opt_some disjI1)
    then show "rmatch (Seq (Opt ?X) (Lit (lit '']''))) inp (lit ''|'' @ w @ a @ lit '']'' @ r) c' ?K \<noteq> None"
      unfolding rmatch_Seq [of "Opt ?X"] .
  qed
qed

lemma imageShape_iff: "imageShape t \<longleftrightarrow> strMatch t imageRx \<noteq> None"
proof
  assume "imageShape t"
  then have "\<exists>p s1. t = p @ s1 \<and> rmatch imageRx t s1 Map.empty (\<lambda>s' c. Some (s', c)) \<noteq> None"
    unfolding imageShape_def
  proof (elim disjE exE conjE)
    fix p u r
    assume "t = p @ lit ''[image:'' @ u @ lit '']'' @ r" "u \<noteq> []" "0x7C \<notin> set u"
    then show ?thesis
      using image_match_complete(1) [of u t r Map.empty] by blast
  next
    fix p u w a r
    assume "t = p @ lit ''[image:'' @ u @ lit ''|'' @ w @ a @ lit '']'' @ r" "u \<noteq> []" "0x7C \<notin> set u"
      "\<forall>z\<in>set w. isWhiteSpace z" "a \<noteq> []" "\<forall>z\<in>set a. \<not> isLineTerminator z"
    then show ?thesis
      using image_match_complete(2) [of u w a t r Map.empty] by blast
  qed
  then obtain p s1 where "t = p @ s1" "rmatch imageRx t s1 Map.empty (\<lambda>s' c. Some (s', c)) \<noteq> None"
    by blast
  then have "search imageRx t t \<noteq> None"
    using search_complete [of imageRx t s1 p] by simp
  then show "strMatch t imageRx \<noteq> None"
    by (auto simp: strMatch_def)
next
  assume "strMatch t imageRx \<noteq> None"
  then obtain s1 s2 c where "search imageRx t t = Some (s1, s2, c)"
    by (auto simp: strMatch_def split: option.splits)
  from search_sound [OF this] obtain p where p: "t = p @ s1"
    and "rmatch imageRx t s1 Map.empty (\<lambda>s' c. Some (s', c)) = Some (s2, c)"
    by blast
  from image_match_shape [OF this(2)] p show "imageShape t"
    unfolding imageShape_def by blast
qed

subsection \<open>Image lines\<close>

lemma line_document:
  assumes "splitStr input 0x0A = pre @ l # post" and "loop pre 0 initState = Inr st"
    and "step (length pre) l st = Inr st1" and "\<not> inMetadata st1" and "currentList st1 = None"
  shows "\<exists>stp. loop (pre @ l # post) (Suc (length pre)) initState = Inr stp \<and>
    parsePmap input =
      Inr \<lparr>title = title (result st1), description = description (result st1),
           sections = sections (result st1) @ sections (result (endList stp))\<rparr>"
proof -
  have 1: "loop (pre @ [l]) 0 initState = Inr st1"
    using assms(2,3) by (rule loop_snoc)
  have 2: "splitStr input 0x0A = (pre @ [l]) @ post"
    using assms(1) by simp
  from document_tail [OF 2 1 assms(4)] assms(5) show ?thesis
    by (simp add: endList_None)
qed

lemma image_document_some:
  assumes "splitStr input 0x0A = pre @ l # post" and "loop pre 0 initState = Inr st"
    and "\<not> inMetadata st" and "startsWith (trim l) (lit ''[image:'')"
    and "strMatch (trim l) imageRx = Some m" and "m 1 = Some m1"
  shows "\<exists>stp. loop (pre @ l # post) (Suc (length pre)) initState = Inr stp \<and>
    parsePmap input =
      Inr \<lparr>title = title (result st), description = description (result st),
           sections =
             sections (result st) @
             (case currentList st of
                None \<Rightarrow> []
              | Some xs \<Rightarrow>
                  [\<lparr>type = SList, content = [], level = None, items = Some xs, url = None, alt = None\<rparr>]) @
             \<lparr>type = SImage, content = [], level = None, items = None, url = Some (trim m1),
               alt = Some (case m 2 of None \<Rightarrow> [] | Some m2 \<Rightarrow> trim m2)\<rparr> #
             sections (result (endList stp))\<rparr>"
proof -
  let ?st1 = "pushSection
    (imageSection (trim m1) (case m 2 of None \<Rightarrow> [] | Some m2 \<Rightarrow> trim m2)) (endList st)"
  have 1: "step (length pre) l st = Inr ?st1"
    using assms(3-6) by (rule step_image_some)
  have 2: "\<not> inMetadata ?st1" "currentList ?st1 = None"
    using assms(3) by (simp_all add: pushSection_def inMetadata_endList currentList_endList)
  have r: "title (result ?st1) = title (result st)"
    "description (result ?st1) = description (result st)"
    "sections (result ?st1) =
       sections (result st) @
       (case currentList st of
          None \<Rightarrow> []
        | Some xs \<Rightarrow>
            [\<lparr>type = SList, content = [], level = None, items = Some xs, url = None, alt = None\<rparr>]) @
       [\<lparr>type = SImage, content = [], level = None, items = None, url = Some (trim m1),
          alt = Some (case m 2 of None \<Rightarrow> [] | Some m2 \<Rightarrow> trim m2)\<rparr>]"
    by (simp_all add: pushSection_def sections_endList title_endList imageSection_def listSection_def
          split: option.splits)
  from line_document [OF assms(1,2) 1 2] show ?thesis
    unfolding r by simp
qed

lemma image_document_none:
  assumes "splitStr input 0x0A = pre @ l # post" and "loop pre 0 initState = Inr st"
    and "\<not> inMetadata st" and "startsWith (trim l) (lit ''[image:'')"
    and "strMatch (trim l) imageRx = None"
  shows "\<exists>stp. loop (pre @ l # post) (Suc (length pre)) initState = Inr stp \<and>
    parsePmap input =
      Inr \<lparr>title = title (result st), description = description (result st),
           sections =
             sections (result st) @
             (case currentList st of
                None \<Rightarrow> []
              | Some xs \<Rightarrow>
                  [\<lparr>type = SList, content = [], level = None, items = Some xs, url = None, alt = None\<rparr>]) @
             sections (result (endList stp))\<rparr>"
proof -
  have 1: "step (length pre) l st = Inr (endList st)"
    using assms(3-5) by (rule step_image_none)
  have 2: "\<not> inMetadata (endList st)" "currentList (endList st) = None"
    using assms(3) by (simp_all add: inMetadata_endList currentList_endList)
  have r: "sections (result (endList st)) =
       sections (result st) @
       (case currentList st of
          None \<Rightarrow> []
        | Some xs \<Rightarrow>
            [\<lparr>type = SList, content = [], level = None, items = Some xs, url = None, alt = None\<rparr>])"
    by (simp add: sections_endList listSection_def split: option.splits)
  from line_document [OF assms(1,2) 1 2] show ?thesis
    unfolding r title_endList by simp
qed

lemma image_document_close:
  assumes "splitStr input 0x0A = pre @ l # post" and "loop pre 0 initState = Inr st"
    and "\<not> inMetadata st" and "trim l = lit ''[image:'' @ u @ lit '']''"
    and "u \<noteq> []" and "0x7C \<notin> set u"
  shows "\<exists>stp. loop (pre @ l # post) (Suc (length pre)) initState = Inr stp \<and>
    parsePmap input =
      Inr \<lparr>title = title (result st), description = description (result st),
           sections =
             sections (result st) @
             (case currentList st of
                None \<Rightarrow> []
              | Some xs \<Rightarrow>
                  [\<lparr>type = SList, content = [], level = None, items = Some xs, url = None, alt = None\<rparr>]) @
             \<lparr>type = SImage, content = [], level = None, items = None, url = Some (trim u),
               alt = Some []\<rparr> #
             sections (result (endList stp))\<rparr>"
proof -
  from strMatch_image_close [OF assms(5,6)] obtain m where
    m: "strMatch (trim l) imageRx = Some m" "m 1 = Some (captured u)" "m 2 = None"
    unfolding assms(4) by blast
  have s: "startsWith (trim l) (lit ''[image:'')"
    unfolding assms(4) by (rule startsWith_image)
  from image_document_some [OF assms(1-3) s m(1,2)] show ?thesis
    by (simp add: m(3) trim_captured [OF assms(5)])
qed

lemma image_document_alt:
  assumes "splitStr input 0x0A = pre @ l # post" and "loop pre 0 initState = Inr st"
    and "\<not> inMetadata st" and "trim l = lit ''[image:'' @ u @ lit ''|'' @ a @ lit '']''"
    and "u \<noteq> []" and "0x7C \<notin> set u" and "a \<noteq> []" and "\<forall>z\<in>set a. \<not> isLineTerminator z"
  shows "\<exists>stp. loop (pre @ l # post) (Suc (length pre)) initState = Inr stp \<and>
    parsePmap input =
      Inr \<lparr>title = title (result st), description = description (result st),
           sections =
             sections (result st) @
             (case currentList st of
                None \<Rightarrow> []
              | Some xs \<Rightarrow>
                  [\<lparr>type = SList, content = [], level = None, items = Some xs, url = None, alt = None\<rparr>]) @
             \<lparr>type = SImage, content = [], level = None, items = None, url = Some (trim u),
               alt = Some (trim a)\<rparr> #
             sections (result (endList stp))\<rparr>"
proof -
  from strMatch_image_alt [OF assms(5-8)] obtain m where
    m: "strMatch (trim l) imageRx = Some m" "m 1 = Some (captured u)" "m 2 = Some (captured a)"
    unfolding assms(4) by blast
  have s: "startsWith (trim l) (lit ''[image:'')"
    unfolding assms(4) by (rule startsWith_image)
  from image_document_some [OF assms(1-3) s m(1,2)] show ?thesis
    by (simp add: m(3) trim_captured [OF assms(5)] trim_captured [OF assms(7)])
qed

lemma image_document_shape:
  assumes "splitStr input 0x0A = pre @ l # post" and "loop pre 0 initState = Inr st"
    and "\<not> inMetadata st" and "startsWith (trim l) (lit ''[image:'')" and "imageShape (trim l)"
  shows "\<exists>stp m m1. loop (pre @ l # post) (Suc (length pre)) initState = Inr stp \<and>
    strMatch (trim l) imageRx = Some m \<and> m 1 = Some m1 \<and>
    parsePmap input =
      Inr \<lparr>title = title (result st), description = description (result st),
           sections =
             sections (result st) @
             (case currentList st of
                None \<Rightarrow> []
              | Some xs \<Rightarrow>
                  [\<lparr>type = SList, content = [], level = None, items = Some xs, url = None, alt = None\<rparr>]) @
             \<lparr>type = SImage, content = [], level = None, items = None, url = Some (trim m1),
               alt = Some (case m 2 of None \<Rightarrow> [] | Some m2 \<Rightarrow> trim m2)\<rparr> #
             sections (result (endList stp))\<rparr>"
proof -
  from assms(5) obtain m where m: "strMatch (trim l) imageRx = Some m"
    unfolding imageShape_iff by blast
  from imageRx_group1 [OF m] obtain m1 where m1: "m 1 = Some m1"
    by blast
  from image_document_some [OF assms(1-4) m m1] m m1 show ?thesis
    by blast
qed

lemma image_document_no_shape:
  assumes "splitStr input 0x0A = pre @ l # post" and "loop pre 0 initState = Inr st"
    and "\<not> inMetadata st" and "startsWith (trim l) (lit ''[image:'')" and "\<not> imageShape (trim l)"
  shows "\<exists>stp. loop (pre @ l # post) (Suc (length pre)) initState = Inr stp \<and>
    parsePmap input =
      Inr \<lparr>title = title (result st), description = description (result st),
           sections =
             sections (result st) @
             (case currentList st of
                None \<Rightarrow> []
              | Some xs \<Rightarrow>
                  [\<lparr>type = SList, content = [], level = None, items = Some xs, url = None, alt = None\<rparr>]) @
             sections (result (endList stp))\<rparr>"
proof -
  from assms(5) have "strMatch (trim l) imageRx = None"
    unfolding imageShape_iff by simp
  with assms(1-4) show ?thesis
    by (rule image_document_none)
qed

text \<open>
  C5, as the code has it. In a document with the lines \<open>pre\<close>, \<open>l\<close>, \<open>post\<close>, where the
  loop reaches \<open>l\<close> outside a metadata block (in the state \<open>st\<close>) and the trimmed \<open>l\<close>
  starts with \<open>[image:\<close>, the result has the sections that \<open>pre\<close> gave, the list that was
  pending, what \<open>l\<close> gives, then the sections that the lines of \<open>post\<close> give; and \<open>l\<close>
  gives

    \<^item> one section of type image with the url \<open>u\<close> trimmed and the empty alt, when the
      trimmed line is \<open>[image:u]\<close> with \<open>u\<close> non-empty and without \<open>|\<close>;
    \<^item> one section of type image with the url \<open>u\<close> trimmed and the alt \<open>a\<close> trimmed, when
      the trimmed line is \<open>[image:u|a]\<close> with also \<open>a\<close> non-empty and without line
      terminators;
    \<^item> one section of type image, with the trimmed group 1 of the match as url and the
      trimmed group 2 (or the empty string) as alt, when the trimmed line has the shape
      of an image line (\<open>imageShape\<close>);
    \<^item> nothing, when it has not.

  No case raises. The sections of a document are those that its lines after the
  metadata block give, so the lines of the block, also those that start with
  \<open>[image:\<close>, give none.
\<close>

theorem image_sections:
  "(splitStr input 0x0A = pre @ l # post \<and> loop pre 0 initState = Inr st \<and> \<not> inMetadata st
      \<and> trim l = lit ''[image:'' @ u @ lit '']'' \<and> u \<noteq> [] \<and> 0x7C \<notin> set u \<longrightarrow>
      (\<exists>stp. loop (pre @ l # post) (Suc (length pre)) initState = Inr stp \<and>
         parsePmap input =
           Inr \<lparr>title = title (result st), description = description (result st),
                sections =
                  sections (result st) @
                  (case currentList st of
                     None \<Rightarrow> []
                   | Some xs \<Rightarrow>
                       [\<lparr>type = SList, content = [], level = None, items = Some xs,
                         url = None, alt = None\<rparr>]) @
                  \<lparr>type = SImage, content = [], level = None, items = None, url = Some (trim u),
                    alt = Some []\<rparr> #
                  sections (result (endList stp))\<rparr>))
   \<and> (splitStr input 0x0A = pre @ l # post \<and> loop pre 0 initState = Inr st \<and> \<not> inMetadata st
        \<and> trim l = lit ''[image:'' @ u @ lit ''|'' @ a @ lit '']'' \<and> u \<noteq> [] \<and> 0x7C \<notin> set u
        \<and> a \<noteq> [] \<and> (\<forall>z\<in>set a. \<not> isLineTerminator z) \<longrightarrow>
      (\<exists>stp. loop (pre @ l # post) (Suc (length pre)) initState = Inr stp \<and>
         parsePmap input =
           Inr \<lparr>title = title (result st), description = description (result st),
                sections =
                  sections (result st) @
                  (case currentList st of
                     None \<Rightarrow> []
                   | Some xs \<Rightarrow>
                       [\<lparr>type = SList, content = [], level = None, items = Some xs,
                         url = None, alt = None\<rparr>]) @
                  \<lparr>type = SImage, content = [], level = None, items = None, url = Some (trim u),
                    alt = Some (trim a)\<rparr> #
                  sections (result (endList stp))\<rparr>))
   \<and> (splitStr input 0x0A = pre @ l # post \<and> loop pre 0 initState = Inr st \<and> \<not> inMetadata st
        \<and> startsWith (trim l) (lit ''[image:'') \<and> imageShape (trim l) \<longrightarrow>
      (\<exists>stp m m1. loop (pre @ l # post) (Suc (length pre)) initState = Inr stp \<and>
         strMatch (trim l) imageRx = Some m \<and> m 1 = Some m1 \<and>
         parsePmap input =
           Inr \<lparr>title = title (result st), description = description (result st),
                sections =
                  sections (result st) @
                  (case currentList st of
                     None \<Rightarrow> []
                   | Some xs \<Rightarrow>
                       [\<lparr>type = SList, content = [], level = None, items = Some xs,
                         url = None, alt = None\<rparr>]) @
                  \<lparr>type = SImage, content = [], level = None, items = None, url = Some (trim m1),
                    alt = Some (case m 2 of None \<Rightarrow> [] | Some m2 \<Rightarrow> trim m2)\<rparr> #
                  sections (result (endList stp))\<rparr>))
   \<and> (splitStr input 0x0A = pre @ l # post \<and> loop pre 0 initState = Inr st \<and> \<not> inMetadata st
        \<and> startsWith (trim l) (lit ''[image:'') \<and> \<not> imageShape (trim l) \<longrightarrow>
      (\<exists>stp. loop (pre @ l # post) (Suc (length pre)) initState = Inr stp \<and>
         parsePmap input =
           Inr \<lparr>title = title (result st), description = description (result st),
                sections =
                  sections (result st) @
                  (case currentList st of
                     None \<Rightarrow> []
                   | Some xs \<Rightarrow>
                       [\<lparr>type = SList, content = [], level = None, items = Some xs,
                         url = None, alt = None\<rparr>]) @
                  sections (result (endList stp))\<rparr>))
   \<and> (parsePmap input = Inr d
      \<longrightarrow> (\<exists>st. loop (splitStr input 0x0A)
                  (length (splitStr input 0x0A) - length (afterFrontMatter (splitStr input 0x0A)))
                  initState = Inr st
            \<and> sections d = sections (result (endList st))))
   \<and> parsePmap (lit ''[image: a.png | A cat]'') =
       Inr \<lparr>title = None, description = None,
            sections = [\<lparr>type = SImage, content = [], level = None, items = None,
                         url = Some (lit ''a.png''), alt = Some (lit ''A cat'')\<rparr>]\<rparr>
   \<and> parsePmap (lit ''[image: a.png]'') =
       Inr \<lparr>title = None, description = None,
            sections = [\<lparr>type = SImage, content = [], level = None, items = None,
                         url = Some (lit ''a.png''), alt = Some []\<rparr>]\<rparr>"
proof (intro conjI impI)
  assume "splitStr input 0x0A = pre @ l # post \<and> loop pre 0 initState = Inr st \<and> \<not> inMetadata st
      \<and> trim l = lit ''[image:'' @ u @ lit '']'' \<and> u \<noteq> [] \<and> 0x7C \<notin> set u"
  then show "\<exists>stp. loop (pre @ l # post) (Suc (length pre)) initState = Inr stp \<and>
         parsePmap input =
           Inr \<lparr>title = title (result st), description = description (result st),
                sections =
                  sections (result st) @
                  (case currentList st of
                     None \<Rightarrow> []
                   | Some xs \<Rightarrow>
                       [\<lparr>type = SList, content = [], level = None, items = Some xs,
                         url = None, alt = None\<rparr>]) @
                  \<lparr>type = SImage, content = [], level = None, items = None, url = Some (trim u),
                    alt = Some []\<rparr> #
                  sections (result (endList stp))\<rparr>"
    by (intro image_document_close) simp_all
next
  assume "splitStr input 0x0A = pre @ l # post \<and> loop pre 0 initState = Inr st \<and> \<not> inMetadata st
        \<and> trim l = lit ''[image:'' @ u @ lit ''|'' @ a @ lit '']'' \<and> u \<noteq> [] \<and> 0x7C \<notin> set u
        \<and> a \<noteq> [] \<and> (\<forall>z\<in>set a. \<not> isLineTerminator z)"
  then show "\<exists>stp. loop (pre @ l # post) (Suc (length pre)) initState = Inr stp \<and>
         parsePmap input =
           Inr \<lparr>title = title (result st), description = description (result st),
                sections =
                  sections (result st) @
                  (case currentList st of
                     None \<Rightarrow> []
                   | Some xs \<Rightarrow>
                       [\<lparr>type = SList, content = [], level = None, items = Some xs,
                         url = None, alt = None\<rparr>]) @
                  \<lparr>type = SImage, content = [], level = None, items = None, url = Some (trim u),
                    alt = Some (trim a)\<rparr> #
                  sections (result (endList stp))\<rparr>"
    by (intro image_document_alt) simp_all
next
  assume "splitStr input 0x0A = pre @ l # post \<and> loop pre 0 initState = Inr st \<and> \<not> inMetadata st
        \<and> startsWith (trim l) (lit ''[image:'') \<and> imageShape (trim l)"
  then show "\<exists>stp m m1. loop (pre @ l # post) (Suc (length pre)) initState = Inr stp \<and>
         strMatch (trim l) imageRx = Some m \<and> m 1 = Some m1 \<and>
         parsePmap input =
           Inr \<lparr>title = title (result st), description = description (result st),
                sections =
                  sections (result st) @
                  (case currentList st of
                     None \<Rightarrow> []
                   | Some xs \<Rightarrow>
                       [\<lparr>type = SList, content = [], level = None, items = Some xs,
                         url = None, alt = None\<rparr>]) @
                  \<lparr>type = SImage, content = [], level = None, items = None, url = Some (trim m1),
                    alt = Some (case m 2 of None \<Rightarrow> [] | Some m2 \<Rightarrow> trim m2)\<rparr> #
                  sections (result (endList stp))\<rparr>"
    by (intro image_document_shape) simp_all
next
  assume "splitStr input 0x0A = pre @ l # post \<and> loop pre 0 initState = Inr st \<and> \<not> inMetadata st
        \<and> startsWith (trim l) (lit ''[image:'') \<and> \<not> imageShape (trim l)"
  then show "\<exists>stp. loop (pre @ l # post) (Suc (length pre)) initState = Inr stp \<and>
         parsePmap input =
           Inr \<lparr>title = title (result st), description = description (result st),
                sections =
                  sections (result st) @
                  (case currentList st of
                     None \<Rightarrow> []
                   | Some xs \<Rightarrow>
                       [\<lparr>type = SList, content = [], level = None, items = Some xs,
                         url = None, alt = None\<rparr>]) @
                  sections (result (endList stp))\<rparr>"
    by (intro image_document_no_shape) simp_all
next
  assume "parsePmap input = Inr d"
  then show "\<exists>st. loop (splitStr input 0x0A)
                  (length (splitStr input 0x0A) - length (afterFrontMatter (splitStr input 0x0A)))
                  initState = Inr st
            \<and> sections d = sections (result (endList st))"
    by (rule body_document)
next
  show "parsePmap (lit ''[image: a.png | A cat]'') =
       Inr \<lparr>title = None, description = None,
            sections = [\<lparr>type = SImage, content = [], level = None, items = None,
                         url = Some (lit ''a.png''), alt = Some (lit ''A cat'')\<rparr>]\<rparr>"
    by code_simp
next
  show "parsePmap (lit ''[image: a.png]'') =
       Inr \<lparr>title = None, description = None,
            sections = [\<lparr>type = SImage, content = [], level = None, items = None,
                         url = Some (lit ''a.png''), alt = Some []\<rparr>]\<rparr>"
    by code_simp
qed

theorem image_sections_witness:
  "parsePmap (lit ''- x\<newline> [image:  pic.png  ] \<newline>tail'') =
     Inr \<lparr>title = None, description = None,
          sections =
            [\<lparr>type = SList, content = [], level = None, items = Some [lit ''x''], url = None, alt = None\<rparr>,
             \<lparr>type = SImage, content = [], level = None, items = None, url = Some (lit ''pic.png''),
               alt = Some []\<rparr>,
             \<lparr>type = SText, content = lit ''tail'', level = None, items = None, url = None, alt = None\<rparr>]\<rparr>
   \<and> parsePmap (lit ''[image: a.png |  A | cat ]\<newline># h'') =
     Inr \<lparr>title = None, description = None,
          sections =
            [\<lparr>type = SImage, content = [], level = None, items = None, url = Some (lit ''a.png''),
               alt = Some (lit ''A | cat'')\<rparr>,
             \<lparr>type = SHeading, content = lit ''h'', level = Some 1, items = None, url = None, alt = None\<rparr>]\<rparr>
   \<and> parsePmap (lit ''\<newline>[image: a.png] caption\<newline>tail'') =
     Inr \<lparr>title = None, description = None,
          sections =
            [\<lparr>type = SImage, content = [], level = None, items = None, url = Some (lit ''a.png''),
               alt = Some []\<rparr>,
             \<lparr>type = SText, content = lit ''tail'', level = None, items = None, url = None, alt = None\<rparr>]\<rparr>
   \<and> parsePmap (lit ''- x\<newline>[image: a.png |]\<newline>tail'') =
     Inr \<lparr>title = None, description = None,
          sections =
            [\<lparr>type = SList, content = [], level = None, items = Some [lit ''x''], url = None, alt = None\<rparr>,
             \<lparr>type = SText, content = lit ''tail'', level = None, items = None, url = None, alt = None\<rparr>]\<rparr>
   \<and> parsePmap (lit ''---\<newline>[image: a.png]\<newline>---\<newline>[image: b.png]'') =
     Inr \<lparr>title = None, description = None,
          sections =
            [\<lparr>type = SImage, content = [], level = None, items = None, url = Some (lit ''b.png''),
               alt = Some []\<rparr>]\<rparr>
   \<and> (\<exists>st. loop [lit ''---'', lit ''[image: a.png]'', lit ''---'', lit ''[image: b.png]''] 3 initState =
           Inr st
         \<and> sections (result (endList st)) =
             [\<lparr>type = SImage, content = [], level = None, items = None, url = Some (lit ''b.png''),
                alt = Some []\<rparr>])"
proof -
  let ?tail = "\<lparr>result = \<lparr>title = None, description = None,
      sections = [\<lparr>type = SText, content = lit ''tail'', level = None, items = None,
                   url = None, alt = None\<rparr>]\<rparr>,
    currentList = None, inMetadata = False\<rparr>"
  let ?stx = "\<lparr>result = \<lparr>title = None, description = None, sections = []\<rparr>,
    currentList = Some [lit ''x''], inMetadata = False\<rparr>"
  have A: "parsePmap (lit ''- x\<newline> [image:  pic.png  ] \<newline>tail'') =
     Inr \<lparr>title = None, description = None,
          sections =
            [\<lparr>type = SList, content = [], level = None, items = Some [lit ''x''], url = None, alt = None\<rparr>,
             \<lparr>type = SImage, content = [], level = None, items = None, url = Some (lit ''pic.png''),
               alt = Some []\<rparr>,
             \<lparr>type = SText, content = lit ''tail'', level = None, items = None, url = None, alt = None\<rparr>]\<rparr>"
  proof -
    let ?input = "lit ''- x\<newline> [image:  pic.png  ] \<newline>tail''"
    let ?pre = "[lit ''- x'']" and ?l = "lit '' [image:  pic.png  ] ''" and ?post = "[lit ''tail'']"
    have 1: "splitStr ?input 0x0A = ?pre @ ?l # ?post \<and> loop ?pre 0 initState = Inr ?stx
        \<and> \<not> inMetadata ?stx
        \<and> trim ?l = lit ''[image:'' @ lit ''  pic.png  '' @ lit '']''
        \<and> lit ''  pic.png  '' \<noteq> [] \<and> 0x7C \<notin> set (lit ''  pic.png  '')"
      unfolding loop_scan by code_simp
    have 2: "trim (lit ''  pic.png  '') = lit ''pic.png''"
      by code_simp
    have 3: "loop (?pre @ ?l # ?post) (Suc (length ?pre)) initState = Inr ?tail"
      unfolding loop_scan by code_simp
    from image_sections [where input = ?input and pre = ?pre and l = ?l and post = ?post
        and st = ?stx and u = "lit ''  pic.png  ''"] 1
    obtain stp where s: "loop (?pre @ ?l # ?post) (Suc (length ?pre)) initState = Inr stp"
      and p: "parsePmap ?input =
           Inr \<lparr>title = title (result ?stx), description = description (result ?stx),
                sections =
                  sections (result ?stx) @
                  (case currentList ?stx of
                     None \<Rightarrow> []
                   | Some xs \<Rightarrow>
                       [\<lparr>type = SList, content = [], level = None, items = Some xs,
                         url = None, alt = None\<rparr>]) @
                  \<lparr>type = SImage, content = [], level = None, items = None,
                    url = Some (trim (lit ''  pic.png  '')), alt = Some []\<rparr> #
                  sections (result (endList stp))\<rparr>"
      by blast
    from s have "stp = ?tail"
      unfolding 3 by simp
    with p show ?thesis
      unfolding 2 by (simp add: endList_def)
  qed
  have B: "parsePmap (lit ''[image: a.png |  A | cat ]\<newline># h'') =
     Inr \<lparr>title = None, description = None,
          sections =
            [\<lparr>type = SImage, content = [], level = None, items = None, url = Some (lit ''a.png''),
               alt = Some (lit ''A | cat'')\<rparr>,
             \<lparr>type = SHeading, content = lit ''h'', level = Some 1, items = None, url = None, alt = None\<rparr>]\<rparr>"
  proof -
    let ?input = "lit ''[image: a.png |  A | cat ]\<newline># h''"
    let ?pre = "[] :: jsstring list" and ?l = "lit ''[image: a.png |  A | cat ]''"
    let ?post = "[lit ''# h'']"
    let ?h = "\<lparr>result = \<lparr>title = None, description = None,
        sections = [\<lparr>type = SHeading, content = lit ''h'', level = Some 1, items = None,
                     url = None, alt = None\<rparr>]\<rparr>,
      currentList = None, inMetadata = False\<rparr>"
    have 1: "splitStr ?input 0x0A = ?pre @ ?l # ?post \<and> \<not> inMetadata initState
        \<and> trim ?l = lit ''[image:'' @ lit '' a.png '' @ lit ''|'' @ lit ''  A | cat '' @ lit '']''
        \<and> lit '' a.png '' \<noteq> [] \<and> 0x7C \<notin> set (lit '' a.png '')
        \<and> lit ''  A | cat '' \<noteq> [] \<and> (\<forall>z\<in>set (lit ''  A | cat ''). \<not> isLineTerminator z)"
      by code_simp
    have 0: "loop ?pre 0 initState = Inr initState"
      by (simp add: loop_end)
    have 2: "trim (lit '' a.png '') = lit ''a.png''" "trim (lit ''  A | cat '') = lit ''A | cat''"
      by code_simp+
    have 3: "loop (?pre @ ?l # ?post) (Suc (length ?pre)) initState = Inr ?h"
      unfolding loop_scan by code_simp
    from image_sections [where input = ?input and pre = ?pre and l = ?l and post = ?post
        and st = initState and u = "lit '' a.png ''" and a = "lit ''  A | cat ''"] 0 1
    obtain stp where s: "loop (?pre @ ?l # ?post) (Suc (length ?pre)) initState = Inr stp"
      and p: "parsePmap ?input =
           Inr \<lparr>title = title (result initState), description = description (result initState),
                sections =
                  sections (result initState) @
                  (case currentList initState of
                     None \<Rightarrow> []
                   | Some xs \<Rightarrow>
                       [\<lparr>type = SList, content = [], level = None, items = Some xs,
                         url = None, alt = None\<rparr>]) @
                  \<lparr>type = SImage, content = [], level = None, items = None,
                    url = Some (trim (lit '' a.png '')), alt = Some (trim (lit ''  A | cat ''))\<rparr> #
                  sections (result (endList stp))\<rparr>"
      by blast
    from s have "stp = ?h"
      unfolding 3 by simp
    with p show ?thesis
      unfolding 2 by (simp add: endList_def initState_def)
  qed
  have C: "parsePmap (lit ''\<newline>[image: a.png] caption\<newline>tail'') =
     Inr \<lparr>title = None, description = None,
          sections =
            [\<lparr>type = SImage, content = [], level = None, items = None, url = Some (lit ''a.png''),
               alt = Some []\<rparr>,
             \<lparr>type = SText, content = lit ''tail'', level = None, items = None, url = None, alt = None\<rparr>]\<rparr>"
  proof -
    let ?input = "lit ''\<newline>[image: a.png] caption\<newline>tail''"
    let ?pre = "[[]] :: jsstring list" and ?l = "lit ''[image: a.png] caption''"
    let ?post = "[lit ''tail'']"
    have 1: "splitStr ?input 0x0A = ?pre @ ?l # ?post \<and> loop ?pre 0 initState = Inr initState
        \<and> \<not> inMetadata initState \<and> startsWith (trim ?l) (lit ''[image:'')"
      unfolding loop_scan by code_simp
    have m: "case strMatch (trim ?l) imageRx of
        None \<Rightarrow> False
      | Some m \<Rightarrow> m 1 = Some (lit ''a.png'') \<and> m 2 = None"
      by code_simp
    then have sh: "imageShape (trim ?l)"
      unfolding imageShape_iff by (auto split: option.splits)
    have 3: "loop (?pre @ ?l # ?post) (Suc (length ?pre)) initState = Inr ?tail"
      unfolding loop_scan by code_simp
    from image_sections [where input = ?input and pre = ?pre and l = ?l and post = ?post
        and st = initState] 1 sh
    obtain stp m m1 where s: "loop (?pre @ ?l # ?post) (Suc (length ?pre)) initState = Inr stp"
      and mm: "strMatch (trim ?l) imageRx = Some m" "m 1 = Some m1"
      and p: "parsePmap ?input =
           Inr \<lparr>title = title (result initState), description = description (result initState),
                sections =
                  sections (result initState) @
                  (case currentList initState of
                     None \<Rightarrow> []
                   | Some xs \<Rightarrow>
                       [\<lparr>type = SList, content = [], level = None, items = Some xs,
                         url = None, alt = None\<rparr>]) @
                  \<lparr>type = SImage, content = [], level = None, items = None, url = Some (trim m1),
                    alt = Some (case m 2 of None \<Rightarrow> [] | Some m2 \<Rightarrow> trim m2)\<rparr> #
                  sections (result (endList stp))\<rparr>"
      by blast
    from m mm have v: "m1 = lit ''a.png''" "m 2 = None"
      by simp_all
    have t: "trim (lit ''a.png'') = lit ''a.png''"
      by code_simp
    from s have "stp = ?tail"
      unfolding 3 by simp
    with p show ?thesis
      unfolding v t by (simp add: endList_def initState_def)
  qed
  have D: "parsePmap (lit ''- x\<newline>[image: a.png |]\<newline>tail'') =
     Inr \<lparr>title = None, description = None,
          sections =
            [\<lparr>type = SList, content = [], level = None, items = Some [lit ''x''], url = None, alt = None\<rparr>,
             \<lparr>type = SText, content = lit ''tail'', level = None, items = None, url = None, alt = None\<rparr>]\<rparr>"
  proof -
    let ?input = "lit ''- x\<newline>[image: a.png |]\<newline>tail''"
    let ?pre = "[lit ''- x'']" and ?l = "lit ''[image: a.png |]''" and ?post = "[lit ''tail'']"
    have 1: "splitStr ?input 0x0A = ?pre @ ?l # ?post \<and> loop ?pre 0 initState = Inr ?stx
        \<and> \<not> inMetadata ?stx \<and> startsWith (trim ?l) (lit ''[image:'')"
      unfolding loop_scan by code_simp
    have "case strMatch (trim ?l) imageRx of None \<Rightarrow> True | Some m \<Rightarrow> False"
      by code_simp
    then have sh: "\<not> imageShape (trim ?l)"
      unfolding imageShape_iff by (auto split: option.splits)
    have 3: "loop (?pre @ ?l # ?post) (Suc (length ?pre)) initState = Inr ?tail"
      unfolding loop_scan by code_simp
    from image_sections [where input = ?input and pre = ?pre and l = ?l and post = ?post
        and st = ?stx] 1 sh
    obtain stp where s: "loop (?pre @ ?l # ?post) (Suc (length ?pre)) initState = Inr stp"
      and p: "parsePmap ?input =
           Inr \<lparr>title = title (result ?stx), description = description (result ?stx),
                sections =
                  sections (result ?stx) @
                  (case currentList ?stx of
                     None \<Rightarrow> []
                   | Some xs \<Rightarrow>
                       [\<lparr>type = SList, content = [], level = None, items = Some xs,
                         url = None, alt = None\<rparr>]) @
                  sections (result (endList stp))\<rparr>"
      by blast
    from s have "stp = ?tail"
      unfolding 3 by simp
    with p show ?thesis
      by (simp add: endList_def)
  qed
  let ?doc = "lit ''---\<newline>[image: a.png]\<newline>---\<newline>[image: b.png]''"
  let ?b = "\<lparr>type = SImage, content = [], level = None, items = None, url = Some (lit ''b.png''),
      alt = Some []\<rparr>"
  have e1: "parsePmap ?doc = Inr \<lparr>title = None, description = None, sections = [?b]\<rparr>"
    by code_simp
  have e2: "splitStr ?doc 0x0A = [lit ''---'', lit ''[image: a.png]'', lit ''---'', lit ''[image: b.png]'']"
    "afterFrontMatter [lit ''---'', lit ''[image: a.png]'', lit ''---'', lit ''[image: b.png]''] =
       [lit ''[image: b.png]'']"
    by code_simp+
  from image_sections [where input = ?doc
      and d = "\<lparr>title = None, description = None, sections = [?b]\<rparr>"] e1
  have "\<exists>st. loop (splitStr ?doc 0x0A)
        (length (splitStr ?doc 0x0A) - length (afterFrontMatter (splitStr ?doc 0x0A)))
        initState = Inr st
      \<and> sections \<lparr>title = None, description = None, sections = [?b]\<rparr> =
          sections (result (endList st))"
    by blast
  then have E: "\<exists>st. loop [lit ''---'', lit ''[image: a.png]'', lit ''---'', lit ''[image: b.png]''] 3
        initState = Inr st
      \<and> sections (result (endList st)) = [?b]"
    unfolding e2 by (auto simp: numeral_3_eq_3)
  from A B C D e1 E show ?thesis by blast
qed

text \<open>
  Lines that start with \<open>[image:\<close> and give no section. Inside a metadata block the line
  \<open>[image: a.png | A cat]\<close> is consumed as metadata, though the image pattern matches
  it. Outside a metadata block, \<open>[image: a.png |]\<close> (a \<open>|\<close> and no alt), \<open>[image:|x]\<close> (no
  url) and \<open>[image: a.png | A\<close>, carriage return, \<open>cat]\<close> (a line terminator in the alt)
  are not matched by the image pattern.
\<close>

theorem image_in_metadata_counterexample:
  "startsWith (lit ''[image: a.png | A cat]'') (lit ''[image:'')
   \<and> (case strMatch (lit ''[image: a.png | A cat]'') imageRx of
         None \<Rightarrow> False
       | Some m \<Rightarrow> m 1 = Some (lit ''a.png '') \<and> m 2 = Some (lit ''A cat''))
   \<and> parsePmap (lit ''---\<newline>[image: a.png | A cat]'') =
       Inr \<lparr>title = None, description = None, sections = []\<rparr>
   \<and> parsePmap (lit ''[image: a.png |]'') =
       Inr \<lparr>title = None, description = None, sections = []\<rparr>
   \<and> parsePmap (lit ''[image:|x]'') =
       Inr \<lparr>title = None, description = None, sections = []\<rparr>
   \<and> parsePmap (lit ''[image: a.png | A'' @ [0x0D] @ lit ''cat]'') =
       Inr \<lparr>title = None, description = None, sections = []\<rparr>"
  by code_simp

subsection \<open>What the bold replace does to a text\<close>

lemma boldTagged_refl: "boldTagged s s"
  by (induction s) (auto intro: boldTagged.intros)

lemma boldTagged_append:
  "boldTagged a a' \<Longrightarrow> boldTagged b b' \<Longrightarrow> boldTagged (a @ b) (a' @ b')"
  by (induction rule: boldTagged.induct) (auto intro: boldTagged.intros)

lemma expand_boldTemplate:
  "expand boldTemplate (c0(1 \<mapsto> mid)) = lit ''<strong>'' @ mid @ lit ''</strong>''"
  by (simp add: boldTemplate_def)

lemma bold_replace_tagged: "boldTagged s (replaceFrom boldRx boldTemplate inp s)"
proof (induction s rule: length_induct)
  case (1 s)
  show ?case
  proof (cases "search boldRx inp s")
    case None
    then show ?thesis
      by (simp add: replaceFrom_no_match boldTagged_refl)
  next
    case (Some y)
    then obtain s1 s2 c where y: "search boldRx inp s = Some (s1, s2, c)"
      by (cases y) auto
    from search_sound [OF y] obtain p where p: "s = p @ s1"
      and m: "rmatch boldRx inp s1 Map.empty (\<lambda>s' c. Some (s', c)) = Some (s2, c)"
      by blast
    from bold_match_shape [OF m] obtain mid where
      s1: "s1 = lit ''**'' @ mid @ lit ''**'' @ s2" and c: "c = Map.empty(1 \<mapsto> mid)"
      by blast
    have l: "length s2 < length s1" "length s2 < length s"
      unfolding p s1 by simp_all
    have r: "replaceFrom boldRx boldTemplate inp s =
      p @ lit ''<strong>'' @ mid @ lit ''</strong>'' @ replaceFrom boldRx boldTemplate inp s2"
      by (subst replaceFrom.simps) (simp add: y l(1) c boldTemplate_def, simp add: p)
    have i: "boldTagged s2 (replaceFrom boldRx boldTemplate inp s2)"
      using 1 l(2) by blast
    have "boldTagged (lit ''**'' @ s2) (lit ''</strong>'' @ replaceFrom boldRx boldTemplate inp s2)"
      using tagged_Close [OF i] by (simp add: lit_def)
    then have "boldTagged (mid @ lit ''**'' @ s2)
        (mid @ lit ''</strong>'' @ replaceFrom boldRx boldTemplate inp s2)"
      using boldTagged_append [OF boldTagged_refl [of mid]] by blast
    then have "boldTagged (lit ''**'' @ mid @ lit ''**'' @ s2)
        (lit ''<strong>'' @ mid @ lit ''</strong>'' @ replaceFrom boldRx boldTemplate inp s2)"
      using tagged_Open [of "mid @ lit ''**'' @ s2"] by (simp add: lit_def)
    then have "boldTagged (p @ lit ''**'' @ mid @ lit ''**'' @ s2)
        (p @ lit ''<strong>'' @ mid @ lit ''</strong>'' @ replaceFrom boldRx boldTemplate inp s2)"
      using boldTagged_append [OF boldTagged_refl [of p]] by blast
    then have "boldTagged s
        (p @ lit ''<strong>'' @ mid @ lit ''</strong>'' @ replaceFrom boldRx boldTemplate inp s2)"
      unfolding p s1 .
    then show ?thesis
      by (simp only: r)
  qed
qed

inductive_cases boldTagged_Cons: "boldTagged (c # s) out"

inductive_cases boldTagged_Nil: "boldTagged [] out"

lemma occursIn_iff: "occursIn x s \<longleftrightarrow> (\<exists>p q. s = p @ x @ q)"
proof (induction s)
  case Nil
  show ?case by auto
next
  case (Cons c s)
  show ?case
  proof
    assume "occursIn x (c # s)"
    then consider "take (length x) (c # s) = x" | "occursIn x s"
      by auto
    then show "\<exists>p q. c # s = p @ x @ q"
    proof cases
      case 1
      then have "c # s = [] @ x @ drop (length x) (c # s)"
        by (metis append_Nil append_take_drop_id)
      then show ?thesis by blast
    next
      case 2
      with Cons obtain p q where "s = p @ x @ q" by blast
      then have "c # s = (c # p) @ x @ q" by simp
      then show ?thesis by blast
    qed
  next
    assume "\<exists>p q. c # s = p @ x @ q"
    then obtain p q where e: "c # s = p @ x @ q" by blast
    show "occursIn x (c # s)"
    proof (cases p)
      case Nil
      with e have "take (length x) (c # s) = x" by simp
      then show ?thesis by simp
    next
      case (Cons d p')
      with e have "s = p' @ x @ q" by simp
      with Cons.IH show ?thesis by auto
    qed
  qed
qed

lemma occursIn_tl: "\<not> occursIn x (c # s) \<Longrightarrow> \<not> occursIn x s"
  by simp

lemma tagged_through:
  assumes "boldTagged (m @ b) out" "\<not> occursIn (lit ''**'') m" "m \<noteq> [] \<longrightarrow> last m \<noteq> 0x2A"
  shows "\<exists>b'. out = m @ b' \<and> boldTagged b b'"
  using assms
proof (induction m arbitrary: out)
  case Nil
  then show ?case by simp
next
  case (Cons c m)
  have n: "\<not> occursIn (lit ''**'') m" "m \<noteq> [] \<longrightarrow> last m \<noteq> 0x2A"
    using Cons.prems(2,3) by auto
  have ns: "\<And>r. c = 0x2A \<Longrightarrow> m @ b = 0x2A # r \<Longrightarrow> False"
  proof -
    fix r
    assume r: "c = 0x2A" "m @ b = 0x2A # r"
    show False
    proof (cases m)
      case Nil
      with r(1) Cons.prems(3) show False by simp
    next
      case (Cons d m')
      with r have "take (length (lit ''**'')) (c # m) = lit ''**''"
        by (simp add: lit_def)
      with Cons.prems(2) show False by simp
    qed
  qed
  from Cons.prems(1) have "boldTagged (c # m @ b) out" by simp
  then show ?case
  proof (rule boldTagged_Cons)
    fix s'
    assume o: "out = c # s'" and "boldTagged (m @ b) s'"
    from Cons.IH [OF this(2) n] obtain b' where "s' = m @ b'" "boldTagged b b'"
      by blast
    with o show ?thesis by simp
  next
    fix s s'
    assume "c = 0x2A" "m @ b = 0x2A # s"
    then show ?thesis using ns by blast
  next
    fix s s'
    assume "c = 0x2A" "m @ b = 0x2A # s"
    then show ?thesis using ns by blast
  qed
qed

lemma tagged_split:
  assumes "boldTagged (a @ m @ b) out" "\<not> occursIn (lit ''**'') m" "m \<noteq> []"
    "hd m \<noteq> 0x2A" "last m \<noteq> 0x2A"
  shows "\<exists>a' b'. out = a' @ m @ b' \<and> boldTagged a a' \<and> boldTagged b b'"
  using assms(1)
proof (induction a arbitrary: out rule: length_induct)
  case (1 a)
  show ?case
  proof (cases a)
    case Nil
    with "1.prems" have "boldTagged (m @ b) out" by simp
    from tagged_through [OF this assms(2)] assms(5) obtain b' where
      "out = m @ b'" "boldTagged b b'"
      by blast
    then have "out = [] @ m @ b' \<and> boldTagged a [] \<and> boldTagged b b'"
      using Nil by (simp add: tagged_Nil)
    then show ?thesis by blast
  next
    case (Cons c a1)
    have star: "\<And>s. a1 @ m @ b = 0x2A # s \<Longrightarrow> \<exists>a2. a1 = 0x2A # a2 \<and> s = a2 @ m @ b"
    proof -
      fix s
      assume e: "a1 @ m @ b = 0x2A # s"
      have "a1 \<noteq> []"
      proof
        assume "a1 = []"
        with e assms(3,4) show False by (cases m) auto
      qed
      then show "\<exists>a2. a1 = 0x2A # a2 \<and> s = a2 @ m @ b"
        using e by (cases a1) auto
    qed
    from Cons "1.prems" have "boldTagged (c # a1 @ m @ b) out" by simp
    then show ?thesis
    proof (rule boldTagged_Cons)
      fix s'
      assume o: "out = c # s'" and t: "boldTagged (a1 @ m @ b) s'"
      have "length a1 < length a" using Cons by simp
      with "1.IH" t obtain a' b' where "s' = a' @ m @ b'" "boldTagged a1 a'" "boldTagged b b'"
        by blast
      then have "out = (c # a') @ m @ b' \<and> boldTagged a (c # a') \<and> boldTagged b b'"
        using o Cons by (simp add: tagged_Keep)
      then show ?thesis by blast
    next
      fix s s'
      assume o: "out = lit ''<strong>'' @ s'" and t: "boldTagged s s'" and c: "c = 0x2A"
        and e: "a1 @ m @ b = 0x2A # s"
      from star [OF e] obtain a2 where a2: "a1 = 0x2A # a2" "s = a2 @ m @ b"
        by blast
      have "length a2 < length a" using Cons a2 by simp
      with "1.IH" t a2(2) obtain a' b' where "s' = a' @ m @ b'" "boldTagged a2 a'" "boldTagged b b'"
        by blast
      then have "out = (lit ''<strong>'' @ a') @ m @ b' \<and> boldTagged a (lit ''<strong>'' @ a')
          \<and> boldTagged b b'"
        using o Cons a2(1) c by (simp add: tagged_Open)
      then show ?thesis by blast
    next
      fix s s'
      assume o: "out = lit ''</strong>'' @ s'" and t: "boldTagged s s'" and c: "c = 0x2A"
        and e: "a1 @ m @ b = 0x2A # s"
      from star [OF e] obtain a2 where a2: "a1 = 0x2A # a2" "s = a2 @ m @ b"
        by blast
      have "length a2 < length a" using Cons a2 by simp
      with "1.IH" t a2(2) obtain a' b' where "s' = a' @ m @ b'" "boldTagged a2 a'" "boldTagged b b'"
        by blast
      then have "out = (lit ''</strong>'' @ a') @ m @ b' \<and> boldTagged a (lit ''</strong>'' @ a')
          \<and> boldTagged b b'"
        using o Cons a2(1) c by (simp add: tagged_Close)
      then show ?thesis by blast
    qed
  qed
qed

lemma tag_chars:
  "(0x5B :: cu) \<notin> set (lit ''</strong>'')" "(0x5D :: cu) \<notin> set (lit ''</strong>'')"
  "(0x28 :: cu) \<notin> set (lit ''</strong>'')" "(0x29 :: cu) \<notin> set (lit ''</strong>'')"
  "set (lit ''<strong>'') \<subseteq> set (lit ''</strong>'')"
  by (simp_all add: lit_def)

lemma append_eq_keep:
  assumes "x @ s' = a' @ c # b'" "c \<notin> set x"
  shows "\<exists>a''. a' = x @ a'' \<and> s' = a'' @ c # b'"
proof -
  from assms(1) obtain us where
    "(x = a' @ us \<and> us @ s' = c # b') \<or> (x @ us = a' \<and> s' = us @ c # b')"
    by (auto simp: append_eq_append_conv2)
  then show ?thesis
  proof
    assume a: "x = a' @ us \<and> us @ s' = c # b'"
    show ?thesis
    proof (cases us)
      case Nil
      with a show ?thesis by simp
    next
      case (Cons d us')
      with a have "c \<in> set x" by auto
      with assms(2) show ?thesis by simp
    qed
  next
    assume "x @ us = a' \<and> s' = us @ c # b'"
    then show ?thesis by auto
  qed
qed

lemma tagged_unsplit:
  assumes "boldTagged s out" "out = a' @ c # b'" "c \<notin> set (lit ''</strong>'')"
  shows "\<exists>a b. s = a @ c # b \<and> boldTagged a a' \<and> boldTagged b b'"
  using assms(1,2)
proof (induction arbitrary: a' rule: boldTagged.induct)
  case tagged_Nil
  then show ?case by simp
next
  case (tagged_Keep s s' d)
  show ?case
  proof (cases a')
    case Nil
    with tagged_Keep.prems have "d = c" "s' = b'" by simp_all
    with tagged_Keep.hyps have "d # s = [] @ c # s \<and> boldTagged [] a' \<and> boldTagged s b'"
      using Nil by (simp add: boldTagged.tagged_Nil)
    then show ?thesis by blast
  next
    case (Cons e a'')
    with tagged_Keep.prems have e: "e = d" "s' = a'' @ c # b'" by simp_all
    from tagged_Keep.IH [OF e(2)] obtain a b where "s = a @ c # b" "boldTagged a a''" "boldTagged b b'"
      by blast
    then have "d # s = (d # a) @ c # b \<and> boldTagged (d # a) a' \<and> boldTagged b b'"
      using Cons e(1) by (simp add: boldTagged.tagged_Keep)
    then show ?thesis by blast
  qed
next
  case (tagged_Open s s')
  have "c \<notin> set (lit ''<strong>'')"
    using assms(3) tag_chars(5) by blast
  from append_eq_keep [OF tagged_Open.prems this] obtain a'' where
    a: "a' = lit ''<strong>'' @ a''" "s' = a'' @ c # b'"
    by blast
  from tagged_Open.IH [OF a(2)] obtain a b where "s = a @ c # b" "boldTagged a a''" "boldTagged b b'"
    by blast
  then have "0x2A # 0x2A # s = (0x2A # 0x2A # a) @ c # b \<and> boldTagged (0x2A # 0x2A # a) a'
      \<and> boldTagged b b'"
    using a(1) by (simp add: boldTagged.tagged_Open)
  then show ?case by blast
next
  case (tagged_Close s s')
  from append_eq_keep [OF tagged_Close.prems assms(3)] obtain a'' where
    a: "a' = lit ''</strong>'' @ a''" "s' = a'' @ c # b'"
    by blast
  from tagged_Close.IH [OF a(2)] obtain a b where "s = a @ c # b" "boldTagged a a''" "boldTagged b b'"
    by blast
  then have "0x2A # 0x2A # s = (0x2A # 0x2A # a) @ c # b \<and> boldTagged (0x2A # 0x2A # a) a'
      \<and> boldTagged b b'"
    using a(1) by (simp add: boldTagged.tagged_Close)
  then show ?case by blast
qed

lemma tagged_set:
  assumes "boldTagged s s'" "c \<notin> set (lit ''</strong>'')" "c \<noteq> 0x2A"
  shows "c \<in> set s \<longleftrightarrow> c \<in> set s'"
  using assms
  by (induction rule: boldTagged.induct) (auto simp: lit_def)

lemma tagged_Nil_iff: "boldTagged [] out \<longleftrightarrow> out = []"
  by (auto elim: boldTagged_Nil intro: tagged_Nil)

lemma tagged_paren:
  assumes "boldTagged r (0x28 # y')"
  shows "\<exists>y. r = 0x28 # y \<and> boldTagged y y'"
proof (cases r)
  case Nil
  with assms show ?thesis by (simp add: tagged_Nil_iff)
next
  case (Cons c s)
  with assms have "boldTagged (c # s) (0x28 # y')" by simp
  then show ?thesis
  proof (rule boldTagged_Cons)
    fix s'
    assume "0x28 # y' = c # s'" "boldTagged s s'"
    with Cons show ?thesis by simp
  next
    fix s0 s'
    assume "0x28 # y' = lit ''<strong>'' @ s'"
    then show ?thesis by (simp add: lit_def)
  next
    fix s0 s'
    assume "0x28 # y' = lit ''</strong>'' @ s'"
    then show ?thesis by (simp add: lit_def)
  qed
qed

subsection \<open>Labels and targets left open\<close>

lemma dropWhile_until: "x \<notin> set a \<Longrightarrow> dropWhile (\<lambda>z. z \<noteq> x) (a @ x # r) = x # r"
  by (induction a) auto

lemma openLabel_iff: "openLabel s \<longleftrightarrow> (\<exists>x. s = 0x5B # x \<and> 0x5D \<notin> set x)"
  by (cases s) (auto simp: openLabel_def)

lemma openTarget_iff:
  "openTarget s \<longleftrightarrow>
     (\<exists>l y. s = 0x5B # l @ 0x5D # 0x28 # y \<and> l \<noteq> [] \<and> 0x5D \<notin> set l \<and> 0x29 \<notin> set y)"
proof
  assume o: "openTarget s"
  then obtain x where s: "s = 0x5B # x"
    by (cases s) (auto simp: openTarget_def)
  let ?l = "takeWhile (\<lambda>z. z \<noteq> 0x5D) x" and ?r = "dropWhile (\<lambda>z. z \<noteq> 0x5D) x"
  from o s have 1: "?l \<noteq> []" "take 2 ?r = lit ''](''" "0x29 \<notin> set (drop 2 ?r)"
    by (simp_all add: openTarget_def)
  have "?r = take 2 ?r @ drop 2 ?r" by simp
  then have "?r = 0x5D # 0x28 # drop 2 ?r"
    unfolding 1(2) by (simp add: lit_def)
  moreover have "x = ?l @ ?r" by simp
  ultimately have "s = 0x5B # ?l @ 0x5D # 0x28 # drop 2 ?r"
    using s by simp
  moreover have "0x5D \<notin> set ?l"
    using set_takeWhileD [of "0x5D" "\<lambda>z. z \<noteq> 0x5D" x] by blast
  ultimately show "\<exists>l y. s = 0x5B # l @ 0x5D # 0x28 # y \<and> l \<noteq> [] \<and> 0x5D \<notin> set l \<and> 0x29 \<notin> set y"
    using 1(1,3) by blast
next
  assume "\<exists>l y. s = 0x5B # l @ 0x5D # 0x28 # y \<and> l \<noteq> [] \<and> 0x5D \<notin> set l \<and> 0x29 \<notin> set y"
  then obtain l y where s: "s = 0x5B # l @ 0x5D # 0x28 # y" "l \<noteq> []" "0x5D \<notin> set l" "0x29 \<notin> set y"
    by blast
  have "takeWhile (\<lambda>z. z \<noteq> 0x5D) (l @ 0x5D # 0x28 # y) = l"
    "dropWhile (\<lambda>z. z \<noteq> 0x5D) (l @ 0x5D # 0x28 # y) = 0x5D # 0x28 # y"
    using s(3) by (simp_all add: takeWhile_until dropWhile_until)
  then show "openTarget s"
    using s by (simp add: openTarget_def lit_def)
qed

lemma nowhere_suffix: "nowhere P (a @ y) \<Longrightarrow> y \<noteq> [] \<Longrightarrow> \<not> P y"
proof (induction a)
  case Nil
  then show ?case by (cases y) auto
next
  case (Cons c a)
  then show ?case by simp
qed

lemma nowhere_other:
  assumes "\<And>y. P y \<Longrightarrow> y \<noteq> [] \<and> hd y = 0x5B" "0x5B \<notin> set x"
  shows "nowhere P (x @ s) = nowhere P s"
  using assms(2)
proof (induction x)
  case Nil
  show ?case by simp
next
  case (Cons c x)
  have "\<not> P (c # x @ s)"
    using assms(1) [of "c # x @ s"] Cons.prems by auto
  with Cons show ?case by simp
qed

lemma openLabel_hd: "openLabel y \<Longrightarrow> y \<noteq> [] \<and> hd y = 0x5B"
  by (auto simp: openLabel_iff)

lemma openTarget_hd: "openTarget y \<Longrightarrow> y \<noteq> [] \<and> hd y = 0x5B"
  by (auto simp: openTarget_iff)

lemma tagged_openLabel:
  assumes "boldTagged s s'" "nowhere openLabel s"
  shows "nowhere openLabel s'"
  using assms
proof (induction rule: boldTagged.induct)
  case tagged_Nil
  show ?case by simp
next
  case (tagged_Keep s s' c)
  have "\<not> openLabel (c # s')"
  proof
    assume "openLabel (c # s')"
    then have c: "c = 0x5B" "0x5D \<notin> set s'"
      by (simp_all add: openLabel_def)
    then have "0x5D \<notin> set s"
      using tagged_set [OF tagged_Keep.hyps tag_chars(2)] by simp
    with c(1) have "openLabel (c # s)"
      by (simp add: openLabel_def)
    with tagged_Keep.prems show False by simp
  qed
  with tagged_Keep show ?case by simp
next
  case (tagged_Open s s')
  then have "nowhere openLabel s'" by simp
  then show ?case
    using nowhere_other [of openLabel "lit ''<strong>''" s'] openLabel_hd
    by (simp add: lit_def)
next
  case (tagged_Close s s')
  then have "nowhere openLabel s'" by simp
  then show ?case
    using nowhere_other [of openLabel "lit ''</strong>''" s'] openLabel_hd
    by (simp add: lit_def)
qed

lemma tagged_openTarget:
  assumes "boldTagged s s'" "nowhere openTarget s"
  shows "nowhere openTarget s'"
  using assms
proof (induction rule: boldTagged.induct)
  case tagged_Nil
  show ?case by simp
next
  case (tagged_Keep s s' c)
  have "\<not> openTarget (c # s')"
  proof
    assume "openTarget (c # s')"
    then obtain l' y' where o: "c = 0x5B" "s' = l' @ 0x5D # 0x28 # y'" "l' \<noteq> []"
      "0x5D \<notin> set l'" "0x29 \<notin> set y'"
      unfolding openTarget_iff by auto
    from tagged_unsplit [OF tagged_Keep.hyps o(2) tag_chars(2)] obtain l r where
      s: "s = l @ 0x5D # r" "boldTagged l l'" "boldTagged r (0x28 # y')"
      by blast
    from tagged_paren [OF s(3)] obtain y where y: "r = 0x28 # y" "boldTagged y y'"
      by blast
    have "l \<noteq> []"
      using s(2) o(3) by (auto simp: tagged_Nil_iff)
    moreover have "0x5D \<notin> set l"
      using tagged_set [OF s(2) tag_chars(2)] o(4) by simp
    moreover have "0x29 \<notin> set y"
      using tagged_set [OF y(2) tag_chars(4)] o(5) by simp
    ultimately have "openTarget (c # s)"
      unfolding openTarget_iff using o(1) s(1) y(1) by blast
    with tagged_Keep.prems show False by simp
  qed
  with tagged_Keep show ?case by simp
next
  case (tagged_Open s s')
  then have "nowhere openTarget s'" by simp
  then show ?case
    using nowhere_other [of openTarget "lit ''<strong>''" s'] openTarget_hd
    by (simp add: lit_def)
next
  case (tagged_Close s s')
  then have "nowhere openTarget s'" by simp
  then show ?case
    using nowhere_other [of openTarget "lit ''</strong>''" s'] openTarget_hd
    by (simp add: lit_def)
qed

subsection \<open>Link matches that end before a given point\<close>

lemma link_extend:
  assumes "rmatch linkRx inp y c0 (\<lambda>s' c. Some (s', c)) = Some (s2, c)"
  shows "rmatch linkRx inp (y @ rest) c0 (\<lambda>s' c. Some (s', c)) = Some (s2 @ rest, c)"
proof -
  from link_match_shape [OF assms] obtain label target where
    y: "y = lit ''['' @ label @ lit '']('' @ target @ lit '')'' @ s2"
    and l: "label \<noteq> []" "0x5D \<notin> set label" "target \<noteq> []" "0x29 \<notin> set target"
    and c: "c = c0(1 \<mapsto> label, 2 \<mapsto> target)"
    by blast
  from link_match_complete [OF l, of inp "s2 @ rest" c0] show ?thesis
    unfolding y c by simp
qed

lemma link_needs_bracket:
  assumes "rmatch linkRx inp s c0 (\<lambda>s' c. Some (s', c)) = Some (s2, c)"
  shows "\<exists>x. s = 0x5B # x \<and> 0x5D \<in> set x"
proof -
  from link_match_shape [OF assms] obtain label target where
    "s = lit ''['' @ label @ lit '']('' @ target @ lit '')'' @ s2"
    by blast
  then have "s = 0x5B # (label @ lit '']('' @ target @ lit '')'' @ s2)
    \<and> 0x5D \<in> set (label @ lit '']('' @ target @ lit '')'' @ s2)"
    by (simp add: lit_def)
  then show ?thesis by blast
qed

lemma link_local_back:
  assumes "rmatch linkRx inp (y @ rest) c0 (\<lambda>s' c. Some (s', c)) = Some (s2', c)"
    and "y \<noteq> []" and "\<not> openLabel y" and "\<not> openTarget y" and "rest = [] \<or> hd rest \<noteq> 0x28"
  shows "\<exists>s2. s2' = s2 @ rest \<and> rmatch linkRx inp y c0 (\<lambda>s' c. Some (s', c)) = Some (s2, c)"
proof -
  from link_match_shape [OF assms(1)] obtain label target where
    e: "y @ rest = lit ''['' @ label @ lit '']('' @ target @ lit '')'' @ s2'"
    and l: "label \<noteq> []" "0x5D \<notin> set label" "target \<noteq> []" "0x29 \<notin> set target"
    and c: "c = c0(1 \<mapsto> label, 2 \<mapsto> target)"
    by blast
  from e assms(2) obtain x where y: "y = 0x5B # x"
    and e1: "x @ rest = label @ 0x5D # (0x28 # target @ 0x29 # s2')"
    by (cases y) (auto simp: lit_def)
  from assms(3) y have "0x5D \<in> set x"
    by (simp add: openLabel_def)
  then obtain l0 x2 where x: "x = l0 @ 0x5D # x2" "0x5D \<notin> set l0"
    by (auto dest: split_list_first)
  from e1 have "l0 @ 0x5D # (x2 @ rest) = label @ 0x5D # (0x28 # target @ 0x29 # s2')"
    unfolding x(1) by simp
  from split_unique [OF this x(2) l(2)] have l0: "l0 = label"
    and e2: "x2 @ rest = 0x28 # target @ 0x29 # s2'"
    by simp_all
  have "x2 \<noteq> []"
  proof
    assume "x2 = []"
    with e2 assms(5) show False by auto
  qed
  with e2 obtain x3 where x2: "x2 = 0x28 # x3" and e3: "x3 @ rest = target @ 0x29 # s2'"
    by (cases x2) auto
  have "0x29 \<in> set x3"
  proof (rule ccontr)
    assume "0x29 \<notin> set x3"
    then have "openTarget y"
      unfolding openTarget_iff y x(1) x2 l0 using l(1,2) by blast
    with assms(4) show False by simp
  qed
  then obtain tg x4 where x3: "x3 = tg @ 0x29 # x4" "0x29 \<notin> set tg"
    by (auto dest: split_list_first)
  from e3 have "tg @ 0x29 # (x4 @ rest) = target @ 0x29 # s2'"
    unfolding x3(1) by simp
  from split_unique [OF this x3(2) l(4)] have tg: "tg = target" and s2': "s2' = x4 @ rest"
    by simp_all
  have "y = lit ''['' @ label @ lit '']('' @ target @ lit '')'' @ x4"
    unfolding y x(1) x2 x3(1) l0 tg by (simp add: lit_def)
  then have "rmatch linkRx inp y c0 (\<lambda>s' c. Some (s', c)) = Some (x4, c)"
    using link_match_complete [OF l, of inp x4 c0] c by simp
  with s2' show ?thesis by blast
qed

lemma link_local:
  assumes "y \<noteq> []" and "\<not> openTarget y" and "rest = [] \<or> hd rest \<noteq> 0x28"
    and "openLabel y \<Longrightarrow> rmatch linkRx inp (y @ rest) c0 (\<lambda>s' c. Some (s', c)) = None"
  shows "rmatch linkRx inp (y @ rest) c0 (\<lambda>s' c. Some (s', c)) =
    (case rmatch linkRx inp y c0 (\<lambda>s' c. Some (s', c)) of
       None \<Rightarrow> None
     | Some (s2, c) \<Rightarrow> Some (s2 @ rest, c))"
proof (cases "rmatch linkRx inp y c0 (\<lambda>s' c. Some (s', c))")
  case (Some v)
  then obtain s2 c where "rmatch linkRx inp y c0 (\<lambda>s' c. Some (s', c)) = Some (s2, c)"
    by (cases v) auto
  with link_extend [OF this, of rest] show ?thesis by simp
next
  case None
  have "rmatch linkRx inp (y @ rest) c0 (\<lambda>s' c. Some (s', c)) = None"
  proof (cases "openLabel y")
    case True
    then show ?thesis by (rule assms(4))
  next
    case False
    show ?thesis
    proof (rule ccontr)
      assume "rmatch linkRx inp (y @ rest) c0 (\<lambda>s' c. Some (s', c)) \<noteq> None"
      then obtain s2' c where "rmatch linkRx inp (y @ rest) c0 (\<lambda>s' c. Some (s', c)) = Some (s2', c)"
        by auto
      from link_local_back [OF this assms(1) False assms(2,3)] None show False
        by auto
    qed
  qed
  with None show ?thesis by simp
qed

lemma link_open_label_empty_target:
  assumes "openLabel y" "0x5D \<notin> set t"
  shows "rmatch linkRx inp (y @ lit ''['' @ t @ lit '']()'' @ post) c0 (\<lambda>s' c. Some (s', c)) = None"
proof -
  from assms(1) obtain x where y: "y = 0x5B # x" "0x5D \<notin> set x"
    unfolding openLabel_iff by blast
  have "0x5D \<notin> set (x @ lit ''['' @ t)"
    using y(2) assms(2) by (simp add: lit_def)
  from link_no_match_empty_target [OF this, of inp post c0] show ?thesis
    unfolding y(1) by (simp add: lit_def)
qed

subsection \<open>The link replace, part by part\<close>

lemma link_no_match_Nil: "rmatch linkRx inp [] c0 (\<lambda>s' c. Some (s', c)) = None"
  by (rule link_no_match_other) simp

lemma search_local:
  assumes "\<And>a y. x = a @ y \<Longrightarrow> y \<noteq> [] \<Longrightarrow>
    rmatch linkRx inp (y @ rest) Map.empty (\<lambda>s' c. Some (s', c)) =
      (case rmatch linkRx inp y Map.empty (\<lambda>s' c. Some (s', c)) of
         None \<Rightarrow> None
       | Some (s2, c) \<Rightarrow> Some (s2 @ rest, c))"
  shows "search linkRx inp (x @ rest) =
    (case search linkRx inp x of
       None \<Rightarrow> search linkRx inp rest
     | Some (s1, s2, c) \<Rightarrow> Some (s1 @ rest, s2 @ rest, c))"
  using assms
proof (induction x)
  case Nil
  show ?case by (simp add: link_no_match_Nil)
next
  case (Cons z x)
  have h: "rmatch linkRx inp ((z # x) @ rest) Map.empty (\<lambda>s' c. Some (s', c)) =
      (case rmatch linkRx inp (z # x) Map.empty (\<lambda>s' c. Some (s', c)) of
         None \<Rightarrow> None
       | Some (s2, c) \<Rightarrow> Some (s2 @ rest, c))"
    using Cons.prems [of "[]" "z # x"] by simp
  have i: "search linkRx inp (x @ rest) =
    (case search linkRx inp x of
       None \<Rightarrow> search linkRx inp rest
     | Some (s1, s2, c) \<Rightarrow> Some (s1 @ rest, s2 @ rest, c))"
  proof (rule Cons.IH)
    fix a y
    assume "x = a @ y" "y \<noteq> []"
    then show "rmatch linkRx inp (y @ rest) Map.empty (\<lambda>s' c. Some (s', c)) =
      (case rmatch linkRx inp y Map.empty (\<lambda>s' c. Some (s', c)) of
         None \<Rightarrow> None
       | Some (s2, c) \<Rightarrow> Some (s2 @ rest, c))"
      using Cons.prems [of "z # a" y] by simp
  qed
  show ?case
  proof (cases "rmatch linkRx inp (z # x) Map.empty (\<lambda>s' c. Some (s', c))")
    case None
    with h i show ?thesis by simp
  next
    case (Some v)
    with h show ?thesis by (cases v) simp
  qed
qed

lemma search_None_suffix:
  assumes "search r inp (a @ y) = None"
  shows "rmatch r inp y Map.empty (\<lambda>s' c. Some (s', c)) = None"
proof (rule ccontr)
  assume "rmatch r inp y Map.empty (\<lambda>s' c. Some (s', c)) \<noteq> None"
  then have "search r inp (a @ y) \<noteq> None"
    by (rule search_complete)
  with assms show False by simp
qed

lemma replaceFrom_local:
  assumes "\<And>a y. x = a @ y \<Longrightarrow> y \<noteq> [] \<Longrightarrow>
    rmatch linkRx inp (y @ rest) Map.empty (\<lambda>s' c. Some (s', c)) =
      (case rmatch linkRx inp y Map.empty (\<lambda>s' c. Some (s', c)) of
         None \<Rightarrow> None
       | Some (s2, c) \<Rightarrow> Some (s2 @ rest, c))"
  shows "replaceFrom linkRx t inp (x @ rest) =
    replaceFrom linkRx t inp x @ replaceFrom linkRx t inp rest"
  using assms
proof (induction x rule: length_induct)
  case (1 x)
  note loc = "1.prems"
  show ?case
  proof (cases "search linkRx inp x")
    case None
    have "replaceFrom linkRx t inp (x @ rest) = x @ replaceFrom linkRx t inp rest"
    proof (rule replaceFrom_skip)
      fix x1 x2
      assume x: "x = x1 @ x2" "x2 \<noteq> []"
      have "rmatch linkRx inp x2 Map.empty (\<lambda>s' c. Some (s', c)) = None"
        using None unfolding x(1) by (rule search_None_suffix)
      with loc [OF x] show "rmatch linkRx inp (x2 @ rest) Map.empty (\<lambda>s' c. Some (s', c)) = None"
        by simp
    qed
    with None show ?thesis
      by (simp add: replaceFrom_no_match)
  next
    case (Some v)
    then obtain s1 s2 c where y: "search linkRx inp x = Some (s1, s2, c)"
      by (cases v) auto
    from search_sound [OF y] obtain p where p: "x = p @ s1"
      and m: "rmatch linkRx inp s1 Map.empty (\<lambda>s' c. Some (s', c)) = Some (s2, c)"
      by blast
    from link_match_shape [OF m] obtain label target where
      s1: "s1 = lit ''['' @ label @ lit '']('' @ target @ lit '')'' @ s2"
      by blast
    have l: "length s2 < length s1"
      unfolding s1 by simp
    have y': "search linkRx inp (x @ rest) = Some (s1 @ rest, s2 @ rest, c)"
      using search_local [OF loc] y by simp
    have a: "replaceFrom linkRx t inp (x @ rest) =
      p @ expand t c @ replaceFrom linkRx t inp (s2 @ rest)"
      by (subst replaceFrom.simps) (simp add: y' l, simp add: p)
    have b: "replaceFrom linkRx t inp x = p @ expand t c @ replaceFrom linkRx t inp s2"
      by (subst replaceFrom.simps) (simp add: y l, simp add: p)
    have "length s2 < length x"
      using l p by simp
    moreover have "\<And>a y. s2 = a @ y \<Longrightarrow> y \<noteq> [] \<Longrightarrow>
      rmatch linkRx inp (y @ rest) Map.empty (\<lambda>s' c. Some (s', c)) =
        (case rmatch linkRx inp y Map.empty (\<lambda>s' c. Some (s', c)) of
           None \<Rightarrow> None
         | Some (s2, c) \<Rightarrow> Some (s2 @ rest, c))"
    proof -
      fix a y
      assume "s2 = a @ y" "y \<noteq> []"
      then have "x = (p @ lit ''['' @ label @ lit '']('' @ target @ lit '')'' @ a) @ y"
        unfolding p s1 by simp
      from loc [OF this \<open>y \<noteq> []\<close>]
      show "rmatch linkRx inp (y @ rest) Map.empty (\<lambda>s' c. Some (s', c)) =
        (case rmatch linkRx inp y Map.empty (\<lambda>s' c. Some (s', c)) of
           None \<Rightarrow> None
         | Some (s2, c) \<Rightarrow> Some (s2 @ rest, c))" .
    qed
    ultimately have "replaceFrom linkRx t inp (s2 @ rest) =
      replaceFrom linkRx t inp s2 @ replaceFrom linkRx t inp rest"
      using "1.IH" by blast
    with a b show ?thesis by simp
  qed
qed

subsection \<open>Links with an empty label or an empty target\<close>

lemma span_skip_empty_label:
  assumes "0x5B \<notin> set u"
  shows "replaceFrom linkRx tpl inp (lit ''[]('' @ u @ lit '')'' @ post) =
    lit ''[]('' @ u @ lit '')'' @ replaceFrom linkRx tpl inp post"
proof -
  let ?mid = "lit '']('' @ u @ lit '')''"
  have m: "0x5B \<notin> set ?mid"
    using assms by (simp add: lit_def)
  have "rmatch linkRx inp (0x5B # ?mid @ post) Map.empty (\<lambda>s' c. Some (s', c)) = None"
    using link_no_match_empty_label [of inp "lit ''('' @ u @ lit '')'' @ post" Map.empty]
    by (simp add: lit_def)
  then have "replaceFrom linkRx tpl inp (0x5B # ?mid @ post) =
    0x5B # ?mid @ replaceFrom linkRx tpl inp post"
    by (simp only: replaceLinks_skip_char replaceLinks_skip_other [OF m])
  then show ?thesis
    by (simp add: lit_def)
qed

lemma span_skip_empty_target:
  assumes "0x5D \<notin> set t"
  shows "replaceFrom linkRx tpl inp (lit ''['' @ t @ lit '']()'' @ post) =
    lit ''['' @ t @ lit '']()'' @ replaceFrom linkRx tpl inp post"
proof -
  have "replaceFrom linkRx tpl inp ((lit ''['' @ t @ lit '']()'') @ post) =
    (lit ''['' @ t @ lit '']()'') @ replaceFrom linkRx tpl inp post"
  proof (rule replaceFrom_skip)
    fix x1 x2
    assume x: "lit ''['' @ t @ lit '']()'' = x1 @ x2" "x2 \<noteq> []"
    show "rmatch linkRx inp (x2 @ post) Map.empty (\<lambda>s' c. Some (s', c)) = None"
    proof (cases "hd x2 = 0x5B")
      case False
      then have "hd (x2 @ post) \<noteq> 0x5B"
        using x(2) by simp
      then show ?thesis
        by (intro link_no_match_other) simp
    next
      case True
      from x(1) have "(0x5B # t) @ lit '']()'' = x1 @ x2"
        by (simp add: lit_def)
      then obtain us where
        "(0x5B # t = x1 @ us \<and> us @ lit '']()'' = x2) \<or> ((0x5B # t) @ us = x1 \<and> lit '']()'' = us @ x2)"
        unfolding append_eq_append_conv2 by blast
      then show ?thesis
      proof
        assume a: "0x5B # t = x1 @ us \<and> us @ lit '']()'' = x2"
        with True obtain t3 where us: "us = 0x5B # t3"
          by (cases us) (auto simp: lit_def)
        have "set us \<subseteq> set (0x5B # t)"
          using a by (metis set_append sup_ge2)
        then have "0x5D \<notin> set t3"
          using us assms by auto
        moreover have "x2 @ post = lit ''['' @ t3 @ lit '']()'' @ post"
          using a us by (auto simp: lit_def)
        ultimately show ?thesis
          using link_no_match_empty_target [of t3 inp post Map.empty] by simp
      next
        assume a: "(0x5B # t) @ us = x1 \<and> lit '']()'' = us @ x2"
        then have "set x2 \<subseteq> set (lit '']()'')"
          by (metis set_append sup_ge2)
        with True x(2) show ?thesis
          by (cases x2) (auto simp: lit_def)
      qed
    qed
  qed
  then show ?thesis by simp
qed

lemma link_pass_empty_label:
  assumes "nowhere openLabel pre1" "nowhere openTarget pre1" "0x5B \<notin> set u"
  shows "strReplaceAll (pre1 @ lit ''[]('' @ u @ lit '')'' @ post1) linkRx linkTemplate =
    strReplaceAll pre1 linkRx linkTemplate @ lit ''[]('' @ u @ lit '')'' @
    strReplaceAll post1 linkRx linkTemplate"
proof -
  let ?rest = "lit ''[]('' @ u @ lit '')'' @ post1"
  let ?inp = "pre1 @ ?rest"
  have "replaceFrom linkRx linkTemplate ?inp (pre1 @ ?rest) =
    replaceFrom linkRx linkTemplate ?inp pre1 @ replaceFrom linkRx linkTemplate ?inp ?rest"
  proof (rule replaceFrom_local)
    fix a y
    assume y: "pre1 = a @ y" "y \<noteq> []"
    have 1: "\<not> openLabel y" "\<not> openTarget y"
      using assms(1,2) y nowhere_suffix by blast+
    show "rmatch linkRx ?inp (y @ ?rest) Map.empty (\<lambda>s' c. Some (s', c)) =
      (case rmatch linkRx ?inp y Map.empty (\<lambda>s' c. Some (s', c)) of
         None \<Rightarrow> None
       | Some (s2, c) \<Rightarrow> Some (s2 @ ?rest, c))"
      by (rule link_local) (use y(2) 1 in \<open>simp_all add: lit_def\<close>)
  qed
  also have "replaceFrom linkRx linkTemplate ?inp ?rest =
    lit ''[]('' @ u @ lit '')'' @ replaceFrom linkRx linkTemplate ?inp post1"
    using assms(3) by (rule span_skip_empty_label)
  also have "replaceFrom linkRx linkTemplate ?inp pre1 = replaceFrom linkRx linkTemplate pre1 pre1"
    using unanchored_linkRx by (rule replaceFrom_unanchored)
  also have "replaceFrom linkRx linkTemplate ?inp post1 = replaceFrom linkRx linkTemplate post1 post1"
    using unanchored_linkRx by (rule replaceFrom_unanchored)
  finally show ?thesis
    by (simp add: strReplaceAll_def)
qed

lemma link_pass_empty_target:
  assumes "nowhere openTarget pre1" "0x5D \<notin> set t"
  shows "strReplaceAll (pre1 @ lit ''['' @ t @ lit '']()'' @ post1) linkRx linkTemplate =
    strReplaceAll pre1 linkRx linkTemplate @ lit ''['' @ t @ lit '']()'' @
    strReplaceAll post1 linkRx linkTemplate"
proof -
  let ?rest = "lit ''['' @ t @ lit '']()'' @ post1"
  let ?inp = "pre1 @ ?rest"
  have "replaceFrom linkRx linkTemplate ?inp (pre1 @ ?rest) =
    replaceFrom linkRx linkTemplate ?inp pre1 @ replaceFrom linkRx linkTemplate ?inp ?rest"
  proof (rule replaceFrom_local)
    fix a y
    assume y: "pre1 = a @ y" "y \<noteq> []"
    have 1: "\<not> openTarget y"
      using assms(1) y nowhere_suffix by blast
    show "rmatch linkRx ?inp (y @ ?rest) Map.empty (\<lambda>s' c. Some (s', c)) =
      (case rmatch linkRx ?inp y Map.empty (\<lambda>s' c. Some (s', c)) of
         None \<Rightarrow> None
       | Some (s2, c) \<Rightarrow> Some (s2 @ ?rest, c))"
    proof (rule link_local)
      show "y \<noteq> []" by fact
      show "\<not> openTarget y" by fact
      show "?rest = [] \<or> hd ?rest \<noteq> 0x28" by (simp add: lit_def)
      assume "openLabel y"
      then show "rmatch linkRx ?inp (y @ ?rest) Map.empty (\<lambda>s' c. Some (s', c)) = None"
        using assms(2) by (rule link_open_label_empty_target)
    qed
  qed
  also have "replaceFrom linkRx linkTemplate ?inp ?rest =
    lit ''['' @ t @ lit '']()'' @ replaceFrom linkRx linkTemplate ?inp post1"
    using assms(2) by (rule span_skip_empty_target)
  also have "replaceFrom linkRx linkTemplate ?inp pre1 = replaceFrom linkRx linkTemplate pre1 pre1"
    using unanchored_linkRx by (rule replaceFrom_unanchored)
  also have "replaceFrom linkRx linkTemplate ?inp post1 = replaceFrom linkRx linkTemplate post1 post1"
    using unanchored_linkRx by (rule replaceFrom_unanchored)
  finally show ?thesis
    by (simp add: strReplaceAll_def)
qed

lemma no_stars_append:
  assumes "\<not> occursIn (lit ''**'') u" "\<not> occursIn (lit ''**'') v"
    "u = [] \<or> last u \<noteq> 0x2A \<or> v = [] \<or> hd v \<noteq> 0x2A"
  shows "\<not> occursIn (lit ''**'') (u @ v)"
  using assms
proof (induction u)
  case Nil
  then show ?case by simp
next
  case (Cons d u)
  have 1: "\<not> occursIn (lit ''**'') (u @ v)"
    using Cons by (cases u) auto
  have 2: "take (length (lit ''**'')) (d # u @ v) \<noteq> lit ''**''"
  proof (cases u)
    case Nil
    with Cons.prems(3) show ?thesis
      by (cases v) (auto simp: lit_def)
  next
    case (Cons e u')
    with Cons.prems(1) show ?thesis
      by (simp add: lit_def)
  qed
  from 1 2 show ?case by simp
qed

lemma no_stars_label_span:
  assumes "\<not> occursIn (lit ''**'') u"
  shows "\<not> occursIn (lit ''**'') (lit ''[]('' @ u @ lit '')'')"
proof -
  have 1: "\<not> occursIn (lit ''**'') (u @ lit '')'')"
    using assms by (rule no_stars_append) (simp_all add: lit_def)
  have "\<not> occursIn (lit ''**'') (lit ''[]('' @ (u @ lit '')''))"
    by (rule no_stars_append) (use 1 in \<open>simp_all add: lit_def\<close>)
  then show ?thesis by simp
qed

lemma no_stars_target_span:
  assumes "\<not> occursIn (lit ''**'') t"
  shows "\<not> occursIn (lit ''**'') (lit ''['' @ t @ lit '']()'')"
proof -
  have 1: "\<not> occursIn (lit ''**'') (t @ lit '']()'')"
    using assms by (rule no_stars_append) (simp_all add: lit_def)
  have "\<not> occursIn (lit ''**'') (lit ''['' @ (t @ lit '']()''))"
    by (rule no_stars_append) (use 1 in \<open>simp_all add: lit_def\<close>)
  then show ?thesis by simp
qed

lemma bold_pass_keeps:
  assumes "\<not> occursIn (lit ''**'') m" "m \<noteq> []" "hd m \<noteq> 0x2A" "last m \<noteq> 0x2A"
  shows "\<exists>pre1 post1. boldTagged pre pre1 \<and> boldTagged post post1 \<and>
    strReplaceAll (pre @ m @ post) boldRx boldTemplate = pre1 @ m @ post1"
proof -
  have "boldTagged (pre @ m @ post) (strReplaceAll (pre @ m @ post) boldRx boldTemplate)"
    unfolding strReplaceAll_def by (rule bold_replace_tagged)
  from tagged_split [OF this assms] show ?thesis by blast
qed

lemma tagged_no_stars:
  assumes "boldTagged s s'" "\<not> occursIn (lit ''**'') s"
  shows "s' = s"
  using assms
  by (induction rule: boldTagged.induct) (auto simp: lit_def)

lemma transform_empty_label:
  assumes "nowhere openLabel pre" "nowhere openTarget pre" "0x5B \<notin> set u"
    "\<not> occursIn (lit ''**'') u"
  shows "\<exists>pre1 post1. boldTagged pre pre1 \<and> boldTagged post post1
    \<and> strReplaceAll (pre @ lit ''[]('' @ u @ lit '')'' @ post) boldRx boldTemplate =
        pre1 @ lit ''[]('' @ u @ lit '')'' @ post1
    \<and> processInlineMarkup (pre @ lit ''[]('' @ u @ lit '')'' @ post) =
        strReplaceAll pre1 linkRx linkTemplate @ lit ''[]('' @ u @ lit '')'' @
        strReplaceAll post1 linkRx linkTemplate"
proof -
  let ?m = "lit ''[]('' @ u @ lit '')''"
  have "\<not> occursIn (lit ''**'') ?m" "?m \<noteq> []" "hd ?m \<noteq> 0x2A" "last ?m \<noteq> 0x2A"
    using no_stars_label_span [OF assms(4)] by (simp_all add: lit_def)
  from bold_pass_keeps [OF this, of pre post] obtain pre1 post1 where
    t: "boldTagged pre pre1" "boldTagged post post1"
    and b: "strReplaceAll (pre @ ?m @ post) boldRx boldTemplate = pre1 @ ?m @ post1"
    by blast
  have "nowhere openLabel pre1" "nowhere openTarget pre1"
    using t(1) assms(1,2) tagged_openLabel tagged_openTarget by blast+
  from link_pass_empty_label [OF this assms(3), of post1]
  have "processInlineMarkup (pre @ ?m @ post) =
    strReplaceAll pre1 linkRx linkTemplate @ lit ''[]('' @ u @ lit '')'' @
    strReplaceAll post1 linkRx linkTemplate"
    using b by (simp add: processInlineMarkup_def)
  with t b show ?thesis by auto
qed

lemma transform_empty_target:
  assumes "nowhere openTarget pre" "0x5D \<notin> set t" "\<not> occursIn (lit ''**'') t"
  shows "\<exists>pre1 post1. boldTagged pre pre1 \<and> boldTagged post post1
    \<and> strReplaceAll (pre @ lit ''['' @ t @ lit '']()'' @ post) boldRx boldTemplate =
        pre1 @ lit ''['' @ t @ lit '']()'' @ post1
    \<and> processInlineMarkup (pre @ lit ''['' @ t @ lit '']()'' @ post) =
        strReplaceAll pre1 linkRx linkTemplate @ lit ''['' @ t @ lit '']()'' @
        strReplaceAll post1 linkRx linkTemplate"
proof -
  let ?m = "lit ''['' @ t @ lit '']()''"
  have "\<not> occursIn (lit ''**'') ?m" "?m \<noteq> []" "hd ?m \<noteq> 0x2A" "last ?m \<noteq> 0x2A"
    using no_stars_target_span [OF assms(3)] by (simp_all add: lit_def)
  from bold_pass_keeps [OF this, of pre post] obtain pre1 post1 where
    t: "boldTagged pre pre1" "boldTagged post post1"
    and b: "strReplaceAll (pre @ ?m @ post) boldRx boldTemplate = pre1 @ ?m @ post1"
    by blast
  have "nowhere openTarget pre1"
    using t(1) assms(1) tagged_openTarget by blast
  from link_pass_empty_target [OF this assms(2), of post1]
  have "processInlineMarkup (pre @ ?m @ post) =
    strReplaceAll pre1 linkRx linkTemplate @ lit ''['' @ t @ lit '']()'' @
    strReplaceAll post1 linkRx linkTemplate"
    using b by (simp add: processInlineMarkup_def)
  with t b show ?thesis by auto
qed

lemma no_stars_no_bold: "\<not> occursIn (lit ''**'') s \<Longrightarrow> \<not> hasBoldSpan s"
  unfolding hasBoldSpan_def occursIn_iff by blast

lemma transform_empty_label_plain:
  assumes "nowhere openLabel pre" "nowhere openTarget pre" "0x5B \<notin> set u"
    "\<not> occursIn (lit ''**'') u" "\<not> occursIn (lit ''**'') pre" "\<not> occursIn (lit ''**'') post"
  shows "processInlineMarkup (pre @ lit ''[]('' @ u @ lit '')'' @ post) =
    processInlineMarkup pre @ lit ''[]('' @ u @ lit '')'' @ processInlineMarkup post"
proof -
  from transform_empty_label [OF assms(1-4), of post] obtain pre1 post1 where
    t: "boldTagged pre pre1" "boldTagged post post1"
    and p: "processInlineMarkup (pre @ lit ''[]('' @ u @ lit '')'' @ post) =
        strReplaceAll pre1 linkRx linkTemplate @ lit ''[]('' @ u @ lit '')'' @
        strReplaceAll post1 linkRx linkTemplate"
    by blast
  have "pre1 = pre" "post1 = post"
    using t assms(5,6) tagged_no_stars by blast+
  with p show ?thesis
    using assms(5,6) by (simp add: transform_no_bold no_stars_no_bold)
qed

lemma transform_empty_target_plain:
  assumes "nowhere openTarget pre" "0x5D \<notin> set t"
    "\<not> occursIn (lit ''**'') t" "\<not> occursIn (lit ''**'') pre" "\<not> occursIn (lit ''**'') post"
  shows "processInlineMarkup (pre @ lit ''['' @ t @ lit '']()'' @ post) =
    processInlineMarkup pre @ lit ''['' @ t @ lit '']()'' @ processInlineMarkup post"
proof -
  from transform_empty_target [OF assms(1-3), of post] obtain pre1 post1 where
    t: "boldTagged pre pre1" "boldTagged post post1"
    and p: "processInlineMarkup (pre @ lit ''['' @ t @ lit '']()'' @ post) =
        strReplaceAll pre1 linkRx linkTemplate @ lit ''['' @ t @ lit '']()'' @
        strReplaceAll post1 linkRx linkTemplate"
    by blast
  have "pre1 = pre" "post1 = post"
    using t assms(4,5) tagged_no_stars by blast+
  with p show ?thesis
    using assms(4,5) by (simp add: transform_no_bold no_stars_no_bold)
qed

text \<open>
  C10, as the code has it. Every match that the link replace finds is \<open>[\<close>, a non-empty
  label without \<open>]\<close>, \<open>](\<close>, a non-empty target without \<open>)\<close>, \<open>)\<close>, so no match starts at
  the \<open>[\<close> of \<open>[](u)\<close> or of \<open>[t]()\<close>. An input \<open>pre\<close>, span, \<open>post\<close> whose span is \<open>[](u)\<close> or
  \<open>[t]()\<close> is returned with the span unchanged, between what the transform makes of
  \<open>pre\<close> and of \<open>post\<close>, provided that

    \<^item> no match that starts in \<open>pre\<close> runs into the span: no \<open>[\<close> of \<open>pre\<close> is left without
      a \<open>]\<close> after it in \<open>pre\<close> (for \<open>[](u)\<close> only), and no \<open>[\<close>, label, \<open>](\<close> of \<open>pre\<close> is left
      without a \<open>)\<close> after it in \<open>pre\<close>;
    \<^item> the replaces find nothing inside the span: \<open>u\<close> has no \<open>[\<close> and no \<open>**\<close>, \<open>t\<close> has no
      \<open>]\<close> and no \<open>**\<close>.

  What the transform makes of \<open>pre\<close> and \<open>post\<close>: the link replace applied to \<open>pre\<close> and
  \<open>post\<close> with some of their \<open>**\<close> turned into tags by the bold replace; when \<open>pre\<close> and
  \<open>post\<close> have no \<open>**\<close>, the transforms of \<open>pre\<close> and of \<open>post\<close>.
\<close>

theorem link_needs_label_and_target:
  \<open>(search linkRx inp s = Some (s1, s2, c) \<longrightarrow>
      (\<exists>label target.
         s1 = lit ''['' @ label @ lit '']('' @ target @ lit '')'' @ s2
         \<and> label \<noteq> [] \<and> 0x5D \<notin> set label \<and> target \<noteq> [] \<and> 0x29 \<notin> set target
         \<and> c 1 = Some label \<and> c 2 = Some target))
   \<and> (nowhere openLabel pre \<and> nowhere openTarget pre \<and> 0x5B \<notin> set u
        \<and> \<not> occursIn (lit ''**'') u
      \<longrightarrow> (\<exists>pre1 post1. boldTagged pre pre1 \<and> boldTagged post post1
            \<and> strReplaceAll (pre @ lit ''[]('' @ u @ lit '')'' @ post) boldRx boldTemplate =
                pre1 @ lit ''[]('' @ u @ lit '')'' @ post1
            \<and> processInlineMarkup (pre @ lit ''[]('' @ u @ lit '')'' @ post) =
                strReplaceAll pre1 linkRx linkTemplate @ lit ''[]('' @ u @ lit '')'' @
                strReplaceAll post1 linkRx linkTemplate))
   \<and> (nowhere openTarget pre \<and> 0x5D \<notin> set t \<and> \<not> occursIn (lit ''**'') t
      \<longrightarrow> (\<exists>pre1 post1. boldTagged pre pre1 \<and> boldTagged post post1
            \<and> strReplaceAll (pre @ lit ''['' @ t @ lit '']()'' @ post) boldRx boldTemplate =
                pre1 @ lit ''['' @ t @ lit '']()'' @ post1
            \<and> processInlineMarkup (pre @ lit ''['' @ t @ lit '']()'' @ post) =
                strReplaceAll pre1 linkRx linkTemplate @ lit ''['' @ t @ lit '']()'' @
                strReplaceAll post1 linkRx linkTemplate))
   \<and> (nowhere openLabel pre \<and> nowhere openTarget pre \<and> 0x5B \<notin> set u
        \<and> \<not> occursIn (lit ''**'') u \<and> \<not> occursIn (lit ''**'') pre \<and> \<not> occursIn (lit ''**'') post
      \<longrightarrow> processInlineMarkup (pre @ lit ''[]('' @ u @ lit '')'' @ post) =
            processInlineMarkup pre @ lit ''[]('' @ u @ lit '')'' @ processInlineMarkup post)
   \<and> (nowhere openTarget pre \<and> 0x5D \<notin> set t
        \<and> \<not> occursIn (lit ''**'') t \<and> \<not> occursIn (lit ''**'') pre \<and> \<not> occursIn (lit ''**'') post
      \<longrightarrow> processInlineMarkup (pre @ lit ''['' @ t @ lit '']()'' @ post) =
            processInlineMarkup pre @ lit ''['' @ t @ lit '']()'' @ processInlineMarkup post)
   \<and> processInlineMarkup (lit ''[](url)'') = lit ''[](url)''
   \<and> processInlineMarkup (lit ''[text]()'') = lit ''[text]()''\<close>
proof (intro conjI impI)
  assume "search linkRx inp s = Some (s1, s2, c)"
  from search_sound [OF this]
  have "rmatch linkRx inp s1 Map.empty (\<lambda>s' c. Some (s', c)) = Some (s2, c)"
    by blast
  from link_match_shape [OF this]
  show "\<exists>label target.
         s1 = lit ''['' @ label @ lit '']('' @ target @ lit '')'' @ s2
         \<and> label \<noteq> [] \<and> 0x5D \<notin> set label \<and> target \<noteq> [] \<and> 0x29 \<notin> set target
         \<and> c 1 = Some label \<and> c 2 = Some target"
    by auto
next
  assume "nowhere openLabel pre \<and> nowhere openTarget pre \<and> 0x5B \<notin> set u
        \<and> \<not> occursIn (lit ''**'') u"
  then show "\<exists>pre1 post1. boldTagged pre pre1 \<and> boldTagged post post1
            \<and> strReplaceAll (pre @ lit ''[]('' @ u @ lit '')'' @ post) boldRx boldTemplate =
                pre1 @ lit ''[]('' @ u @ lit '')'' @ post1
            \<and> processInlineMarkup (pre @ lit ''[]('' @ u @ lit '')'' @ post) =
                strReplaceAll pre1 linkRx linkTemplate @ lit ''[]('' @ u @ lit '')'' @
                strReplaceAll post1 linkRx linkTemplate"
    by (intro transform_empty_label) simp_all
next
  assume "nowhere openTarget pre \<and> 0x5D \<notin> set t \<and> \<not> occursIn (lit ''**'') t"
  then show "\<exists>pre1 post1. boldTagged pre pre1 \<and> boldTagged post post1
            \<and> strReplaceAll (pre @ lit ''['' @ t @ lit '']()'' @ post) boldRx boldTemplate =
                pre1 @ lit ''['' @ t @ lit '']()'' @ post1
            \<and> processInlineMarkup (pre @ lit ''['' @ t @ lit '']()'' @ post) =
                strReplaceAll pre1 linkRx linkTemplate @ lit ''['' @ t @ lit '']()'' @
                strReplaceAll post1 linkRx linkTemplate"
    by (intro transform_empty_target) simp_all
next
  assume "nowhere openLabel pre \<and> nowhere openTarget pre \<and> 0x5B \<notin> set u
        \<and> \<not> occursIn (lit ''**'') u \<and> \<not> occursIn (lit ''**'') pre \<and> \<not> occursIn (lit ''**'') post"
  then show "processInlineMarkup (pre @ lit ''[]('' @ u @ lit '')'' @ post) =
            processInlineMarkup pre @ lit ''[]('' @ u @ lit '')'' @ processInlineMarkup post"
    by (intro transform_empty_label_plain) simp_all
next
  assume "nowhere openTarget pre \<and> 0x5D \<notin> set t
        \<and> \<not> occursIn (lit ''**'') t \<and> \<not> occursIn (lit ''**'') pre \<and> \<not> occursIn (lit ''**'') post"
  then show "processInlineMarkup (pre @ lit ''['' @ t @ lit '']()'' @ post) =
            processInlineMarkup pre @ lit ''['' @ t @ lit '']()'' @ processInlineMarkup post"
    by (intro transform_empty_target_plain) simp_all
next
  show "processInlineMarkup (lit ''[](url)'') = lit ''[](url)''"
    by code_simp
next
  show "processInlineMarkup (lit ''[text]()'') = lit ''[text]()''"
    by code_simp
qed

theorem link_needs_label_and_target_witness:
  \<open>(\<exists>label target.
      lit ''[go](http://x) end'' = lit ''['' @ label @ lit '']('' @ target @ lit '')'' @ lit '' end''
      \<and> label \<noteq> [] \<and> target \<noteq> [])
   \<and> processInlineMarkup (lit ''**b** [](url)'') = lit ''<strong>b</strong> [](url)''
   \<and> processInlineMarkup (lit ''**b** [text]()'') = lit ''<strong>b</strong> [text]()''
   \<and> processInlineMarkup (lit ''[x](y) a [b] [](url) and [z](w)'') =
       lit ''<a href="y" target="_blank">x</a> a [b] [](url) and <a href="w" target="_blank">z</a>''
   \<and> processInlineMarkup (lit ''[x](y) [ [text]() and [z](w)'') =
       lit ''<a href="y" target="_blank">x</a> [ [text]() and <a href="w" target="_blank">z</a>''\<close>
proof -
  let ?s = "lit ''see [go](http://x) end''"
  have "case search linkRx ?s ?s of
      None \<Rightarrow> False
    | Some (a, b, c) \<Rightarrow> a = lit ''[go](http://x) end'' \<and> b = lit '' end''"
    by code_simp
  then obtain c where 1: "search linkRx ?s ?s = Some (lit ''[go](http://x) end'', lit '' end'', c)"
    by (auto split: option.splits)
  from link_needs_label_and_target [where inp = ?s and s = ?s
      and ?s1.0 = "lit ''[go](http://x) end''" and ?s2.0 = "lit '' end''" and c = c] 1
  have A: "\<exists>label target.
      lit ''[go](http://x) end'' = lit ''['' @ label @ lit '']('' @ target @ lit '')'' @ lit '' end''
      \<and> label \<noteq> [] \<and> target \<noteq> []"
    by blast
  have B: "processInlineMarkup (lit ''**b** [](url)'') = lit ''<strong>b</strong> [](url)''"
  proof -
    let ?pre = "lit ''**b** ''" and ?u = "lit ''url''"
    have h: "nowhere openLabel ?pre \<and> nowhere openTarget ?pre \<and> 0x5B \<notin> set ?u
        \<and> \<not> occursIn (lit ''**'') ?u"
      by code_simp
    from link_needs_label_and_target [where pre = ?pre and u = ?u and post = "[]"] h
    obtain pre1 post1 where t: "boldTagged [] post1"
      and b: "strReplaceAll (?pre @ lit ''[]('' @ ?u @ lit '')'' @ []) boldRx boldTemplate =
                pre1 @ lit ''[]('' @ ?u @ lit '')'' @ post1"
      and p: "processInlineMarkup (?pre @ lit ''[]('' @ ?u @ lit '')'' @ []) =
                strReplaceAll pre1 linkRx linkTemplate @ lit ''[]('' @ ?u @ lit '')'' @
                strReplaceAll post1 linkRx linkTemplate"
      by blast
    have e: "strReplaceAll (?pre @ lit ''[]('' @ ?u @ lit '')'' @ []) boldRx boldTemplate =
      lit ''<strong>b</strong> '' @ lit ''[]('' @ ?u @ lit '')'' @ []"
      by code_simp
    from t have n: "post1 = []"
      by (simp add: tagged_Nil_iff)
    with b e have "pre1 = lit ''<strong>b</strong> ''"
      by simp
    moreover have "strReplaceAll (lit ''<strong>b</strong> '') linkRx linkTemplate = lit ''<strong>b</strong> ''"
      "strReplaceAll [] linkRx linkTemplate = []"
      by code_simp+
    ultimately show ?thesis
      using p n by (simp add: lit_def)
  qed
  have C: "processInlineMarkup (lit ''**b** [text]()'') = lit ''<strong>b</strong> [text]()''"
  proof -
    let ?pre = "lit ''**b** ''" and ?t = "lit ''text''"
    have h: "nowhere openTarget ?pre \<and> 0x5D \<notin> set ?t \<and> \<not> occursIn (lit ''**'') ?t"
      by code_simp
    from link_needs_label_and_target [where pre = ?pre and t = ?t and post = "[]"] h
    obtain pre1 post1 where t: "boldTagged [] post1"
      and b: "strReplaceAll (?pre @ lit ''['' @ ?t @ lit '']()'' @ []) boldRx boldTemplate =
                pre1 @ lit ''['' @ ?t @ lit '']()'' @ post1"
      and p: "processInlineMarkup (?pre @ lit ''['' @ ?t @ lit '']()'' @ []) =
                strReplaceAll pre1 linkRx linkTemplate @ lit ''['' @ ?t @ lit '']()'' @
                strReplaceAll post1 linkRx linkTemplate"
      by blast
    have e: "strReplaceAll (?pre @ lit ''['' @ ?t @ lit '']()'' @ []) boldRx boldTemplate =
      lit ''<strong>b</strong> '' @ lit ''['' @ ?t @ lit '']()'' @ []"
      by code_simp
    from t have n: "post1 = []"
      by (simp add: tagged_Nil_iff)
    with b e have "pre1 = lit ''<strong>b</strong> ''"
      by simp
    moreover have "strReplaceAll (lit ''<strong>b</strong> '') linkRx linkTemplate = lit ''<strong>b</strong> ''"
      "strReplaceAll [] linkRx linkTemplate = []"
      by code_simp+
    ultimately show ?thesis
      using p n by (simp add: lit_def)
  qed
  have D: \<open>processInlineMarkup (lit ''[x](y) a [b] [](url) and [z](w)'') =
       lit ''<a href="y" target="_blank">x</a> a [b] [](url) and <a href="w" target="_blank">z</a>''\<close>
  proof -
    let ?pre = "lit ''[x](y) a [b] ''" and ?u = "lit ''url''" and ?post = "lit '' and [z](w)''"
    have h: "nowhere openLabel ?pre \<and> nowhere openTarget ?pre \<and> 0x5B \<notin> set ?u
        \<and> \<not> occursIn (lit ''**'') ?u \<and> \<not> occursIn (lit ''**'') ?pre \<and> \<not> occursIn (lit ''**'') ?post"
      by code_simp
    have v: \<open>processInlineMarkup ?pre = lit ''<a href="y" target="_blank">x</a> a [b] ''\<close>
      \<open>processInlineMarkup ?post = lit '' and <a href="w" target="_blank">z</a>''\<close>
      by code_simp+
    from link_needs_label_and_target [where pre = ?pre and u = ?u and post = ?post] h
    have "processInlineMarkup (?pre @ lit ''[]('' @ ?u @ lit '')'' @ ?post) =
            processInlineMarkup ?pre @ lit ''[]('' @ ?u @ lit '')'' @ processInlineMarkup ?post"
      by blast
    then show ?thesis
      unfolding v by (simp add: lit_def)
  qed
  have E: \<open>processInlineMarkup (lit ''[x](y) [ [text]() and [z](w)'') =
       lit ''<a href="y" target="_blank">x</a> [ [text]() and <a href="w" target="_blank">z</a>''\<close>
  proof -
    let ?pre = "lit ''[x](y) [ ''" and ?t = "lit ''text''" and ?post = "lit '' and [z](w)''"
    have h: "nowhere openTarget ?pre \<and> 0x5D \<notin> set ?t
        \<and> \<not> occursIn (lit ''**'') ?t \<and> \<not> occursIn (lit ''**'') ?pre \<and> \<not> occursIn (lit ''**'') ?post"
      by code_simp
    have v: \<open>processInlineMarkup ?pre = lit ''<a href="y" target="_blank">x</a> [ ''\<close>
      \<open>processInlineMarkup ?post = lit '' and <a href="w" target="_blank">z</a>''\<close>
      by code_simp+
    from link_needs_label_and_target [where pre = ?pre and t = ?t and post = ?post] h
    have "processInlineMarkup (?pre @ lit ''['' @ ?t @ lit '']()'' @ ?post) =
            processInlineMarkup ?pre @ lit ''['' @ ?t @ lit '']()'' @ processInlineMarkup ?post"
      by blast
    then show ?thesis
      unfolding v by (simp add: lit_def)
  qed
  from A B C D E show ?thesis by blast
qed

text \<open>
  Inputs that contain \<open>[](url)\<close> or \<open>[text]()\<close> and are not returned with that span
  unchanged. In \<open>[a[](url)\<close> a match that starts at the first \<open>[\<close> takes the span into its
  label; in \<open>[a](b [](url)\<close> and \<open>[a](b [text]()\<close> a match takes it into its target; in
  \<open>[]([x](y)\<close> a match starts inside the span, and \<open>[a](b]()\<close> is a link, with the target
  \<open>b](\<close>; in \<open>[](**u**)\<close> and \<open>[**t**]()\<close> the bold replace works inside the span.
\<close>

theorem link_empty_label_counterexample:
  \<open>occursIn (lit ''[](url)'') (lit ''[a[](url)'')
   \<and> processInlineMarkup (lit ''[a[](url)'') = lit ''<a href="url" target="_blank">a[</a>''
   \<and> \<not> occursIn (lit ''[](url)'') (processInlineMarkup (lit ''[a[](url)''))
   \<and> processInlineMarkup (lit ''[a](b [](url)'') = lit ''<a href="b [](url" target="_blank">a</a>''
   \<and> processInlineMarkup (lit ''[a](b [text]()'') = lit ''<a href="b [text](" target="_blank">a</a>''
   \<and> processInlineMarkup (lit ''[]([x](y)'') = lit ''[](<a href="y" target="_blank">x</a>''
   \<and> processInlineMarkup (lit ''[a](b]()'') = lit ''<a href="b](" target="_blank">a</a>''
   \<and> processInlineMarkup (lit ''[](**u**)'') = lit ''[](<strong>u</strong>)''
   \<and> processInlineMarkup (lit ''[**t**]()'') = lit ''[<strong>t</strong>]()''\<close>
  by code_simp

end
